theory Spec2Isabelle
  imports
    Main
    "HOL-Library.AList"
    "HOL-Library.Char_ord"
    "HOL-Library.List_Lexorder"
    "HOL-Library.Option_ord"
begin

section \<open>The Petri net loader of \<^verbatim>\<open>parse_task1.py\<close>\<close>

text \<open>
  The class \<^verbatim>\<open>PetriNet\<close> reads a PNML document, stores places, transitions and arcs,
  derives the preset and postset of every transition and the incidence matrix, and checks
  the consistency of the net. The model follows the class method by method. The object is
  a record that every method takes and returns; an exception is the left summand of the
  result, and the state of the object after an exception is not modelled.
\<close>

subsection \<open>Exceptions\<close>

datatype error = ValueError | TypeError | KeyError | IndexError

subsection \<open>The element tree handed over by \<^verbatim>\<open>xml.etree.ElementTree\<close>\<close>

text \<open>
  An element has a tag (\<^verbatim>\<open>{uri}local\<close> when it lies in a namespace, \<^verbatim>\<open>local\<close> otherwise),
  its attributes, its text (\<^verbatim>\<open>None\<close> when there is none) and its children in document
  order. A character of the model is a code point below 256.
\<close>

datatype element =
  Element (el_tag: string) (attrib: "(string \<times> string) list") (el_text: "string option")
    (children: "element list")

definition get :: "element \<Rightarrow> string \<Rightarrow> string option" where
  \<comment> \<open>\<^verbatim>\<open>Element.get(key)\<close>: the attribute, or \<^verbatim>\<open>None\<close>\<close>
  "get e k = map_of (attrib e) k"

fun iter_el :: "element \<Rightarrow> element list" where
  \<comment> \<open>\<^verbatim>\<open>Element.iter()\<close>: the element and all its descendants, in document order\<close>
  "iter_el (Element t a x cs) = Element t a x cs # concat (map iter_el cs)"

definition is_wildcard_tag :: "string \<Rightarrow> bool" where
  \<comment> \<open>\<^verbatim>\<open>ElementPath._is_wildcard_tag\<close>\<close>
  "is_wildcard_tag t \<longleftrightarrow>
     take 3 t = ''{*}'' \<or> drop (length t - 2) t = ''}*''"

definition select_tag :: "string \<Rightarrow> string \<Rightarrow> bool" where
  \<comment> \<open>whether a path step for tag \<open>t\<close> selects an element whose tag is \<open>el\<close>:
     \<^verbatim>\<open>ElementPath._prepare_tag\<close> for the wildcard forms, and otherwise equality of
     tags, where \<^verbatim>\<open>{}name\<close> stands for \<^verbatim>\<open>name\<close>. The tag of an element is never empty,
     and the load only asks for the five names \<^verbatim>\<open>place\<close>, \<^verbatim>\<open>transition\<close>, \<^verbatim>\<open>arc\<close>,
     \<^verbatim>\<open>initialMarking\<close> and \<^verbatim>\<open>text\<close>, with or without a namespace in front\<close>
  "select_tag t el \<longleftrightarrow>
     (if is_wildcard_tag t then
        (if t = ''{*}*'' then True
         else if t = ''{}*'' then take 1 el \<noteq> ''{''
         else if take 3 t = ''{*}'' then
           el = drop 3 t \<or> drop (length el - length (drop 2 t)) el = drop 2 t
         else take (length t - 1) el = take (length t - 1) t)
      else if take 2 t = ''{}'' then el = drop 2 t
      else el = t)"

definition findall_descendant :: "element \<Rightarrow> string \<Rightarrow> element list" where
  \<comment> \<open>\<^verbatim>\<open>node.findall('.//t')\<close>: the proper descendants that the tag selects, in document
     order (the node itself is left out)\<close>
  "findall_descendant node t =
     filter (\<lambda>e. select_tag t (el_tag e)) (concat (map iter_el (children node)))"

definition find_child :: "element \<Rightarrow> string \<Rightarrow> element option" where
  \<comment> \<open>\<^verbatim>\<open>node.find('t')\<close>: the first child that the tag selects, or \<^verbatim>\<open>None\<close>\<close>
  "find_child node t = find (\<lambda>e. select_tag t (el_tag e)) (children node)"

definition qualified_name :: "string \<Rightarrow> string \<Rightarrow> string" where
  \<comment> \<open>how \<^verbatim>\<open>ElementPath.xpath_tokenizer\<close> resolves \<^verbatim>\<open>pnml:name\<close> under the prefix map
     \<^verbatim>\<open>{'pnml': uri}\<close>\<close>
  "qualified_name uri name = ''{'' @ uri @ ''}'' @ name"

subsection \<open>\<^verbatim>\<open>int(str)\<close>\<close>

definition is_space :: "char \<Rightarrow> bool" where
  "is_space c \<longleftrightarrow> (let n = (of_char c :: nat) in (9 \<le> n \<and> n \<le> 13) \<or> n = 32 \<or> n = 133 \<or> n = 160)"

definition is_digit :: "char \<Rightarrow> bool" where
  "is_digit c \<longleftrightarrow> (let n = (of_char c :: nat) in 48 \<le> n \<and> n \<le> 57)"

fun double_underscore :: "string \<Rightarrow> bool" where
  "double_underscore (a # b # r) \<longleftrightarrow>
     (a = CHR ''_'' \<and> b = CHR ''_'') \<or> double_underscore (b # r)"
| "double_underscore _ \<longleftrightarrow> False"

definition digits_value :: "string \<Rightarrow> nat" where
  "digits_value ds = foldl (\<lambda>a c. 10 * a + (of_char c - 48)) 0 ds"

definition py_int :: "string \<Rightarrow> error + int" where
  \<comment> \<open>\<^verbatim>\<open>int(s)\<close> in base 10: white space around, an optional sign, digits with single
     underscores between them, at most 4300 digits (the default limit of Python 3.11);
     anything else raises \<^verbatim>\<open>ValueError\<close>\<close>
  "py_int s =
     (let s1 = dropWhile is_space s;
          neg = (take 1 s1 = ''-'');
          s2 = (if take 1 s1 = ''+'' \<or> take 1 s1 = ''-'' then drop 1 s1 else s1);
          body = takeWhile (\<lambda>c. is_digit c \<or> c = CHR ''_'') s2;
          rest = dropWhile (\<lambda>c. is_digit c \<or> c = CHR ''_'') s2;
          ds = filter is_digit body
      in if body = [] \<or> take 1 body = ''_'' \<or> last body = CHR ''_'' \<or> double_underscore body
            \<or> \<not> list_all is_space rest \<or> 4300 < length ds
         then Inl ValueError
         else Inr (if neg then - int (digits_value ds) else int (digits_value ds)))"

subsection \<open>The net\<close>

text \<open>
  An identifier is what \<^verbatim>\<open>Element.get\<close> returned: \<^verbatim>\<open>None\<close> when the attribute is missing.
  A dictionary is an association list in insertion order whose keys are distinct: storing
  under a key that is present replaces the value in place, storing under a new key appends
  (\<^const>\<open>AList.update\<close>).
\<close>

type_synonym ident = "string option"

record place =
  place_id :: ident
  token :: int

record transition =
  trans_id :: ident
  preset :: "ident list"
  postset :: "ident list"

record arc =
  arc_id :: ident
  source :: ident
  target :: ident

record petri_net =
  places :: "(ident \<times> place) list"
  transitions :: "(ident \<times> transition) list"
  arcs :: "arc list"
  place_ids :: "ident list"
  transition_ids :: "ident list"
  incidence_matrix :: "int list list"

definition PetriNet_init :: petri_net where
  \<comment> \<open>\<^verbatim>\<open>PetriNet.__init__\<close>\<close>
  "PetriNet_init =
     \<lparr>places = [], transitions = [], arcs = [], place_ids = [], transition_ids = [],
      incidence_matrix = []\<rparr>"

definition dict_ok :: "petri_net \<Rightarrow> bool" where
  \<comment> \<open>the two association lists stand for dictionaries: no key twice\<close>
  "dict_ok net \<longleftrightarrow> distinct (map fst (places net)) \<and> distinct (map fst (transitions net))"

subsection \<open>\<^verbatim>\<open>_generate_incidence_matrix\<close>\<close>

fun index_py :: "'a list \<Rightarrow> 'a \<Rightarrow> error + nat" where
  \<comment> \<open>\<^verbatim>\<open>list.index\<close>: the first position of the value, \<^verbatim>\<open>ValueError\<close> when it is absent\<close>
  "index_py [] x = Inl ValueError"
| "index_py (y # ys) x =
     (if y = x then Inr 0
      else case index_py ys x of Inl e \<Rightarrow> Inl e | Inr i \<Rightarrow> Inr (Suc i))"

definition add_cell :: "int list list \<Rightarrow> nat \<Rightarrow> nat \<Rightarrow> int \<Rightarrow> error + int list list" where
  \<comment> \<open>\<^verbatim>\<open>matrix[i][j] += d\<close>, with the \<^verbatim>\<open>IndexError\<close> of an index out of range\<close>
  "add_cell m i j d =
     (if i < length m \<and> j < length (m ! i)
      then Inr (m[i := (m ! i)[j := m ! i ! j + d]])
      else Inl IndexError)"

fun add_column :: "int \<Rightarrow> ident list \<Rightarrow> nat \<Rightarrow> ident list \<Rightarrow> int list list \<Rightarrow> error + int list list"
  where
  \<comment> \<open>the two inner loops: for each \<^verbatim>\<open>p_id\<close> of the list, look its row up in
     \<^verbatim>\<open>place_ids\<close> and add \<open>d\<close> in column \<^verbatim>\<open>t_idx\<close> (\<open>d = -1\<close> for the preset, \<open>d = 1\<close>
     for the postset)\<close>
  "add_column d pids t_idx [] m = Inr m"
| "add_column d pids t_idx (p # ps) m =
     (case index_py pids p of
        Inl e \<Rightarrow> Inl e
      | Inr p_idx \<Rightarrow>
          (case add_cell m p_idx t_idx d of
             Inl e \<Rightarrow> Inl e
           | Inr m' \<Rightarrow> add_column d pids t_idx ps m'))"

fun fill_matrix ::
  "(ident \<times> transition) list \<Rightarrow> ident list \<Rightarrow> nat \<Rightarrow> ident list \<Rightarrow> int list list
    \<Rightarrow> error + int list list"
  where
  \<comment> \<open>the loop over \<^verbatim>\<open>enumerate(self.transition_ids)\<close>, from column \<^verbatim>\<open>t_idx\<close> on\<close>
  "fill_matrix trs pids t_idx [] m = Inr m"
| "fill_matrix trs pids t_idx (t # ts) m =
     (case map_of trs t of
        None \<Rightarrow> Inl KeyError
      | Some trans_data \<Rightarrow>
          (case add_column (- 1) pids t_idx (preset trans_data) m of
             Inl e \<Rightarrow> Inl e
           | Inr m1 \<Rightarrow>
               (case add_column 1 pids t_idx (postset trans_data) m1 of
                  Inl e \<Rightarrow> Inl e
                | Inr m2 \<Rightarrow> fill_matrix trs pids (Suc t_idx) ts m2)))"

definition generate_incidence_matrix :: "petri_net \<Rightarrow> error + petri_net" where
  "generate_incidence_matrix net =
     (let n_p = length (place_ids net);
          n_t = length (transition_ids net);
          matrix = replicate n_p (replicate n_t 0)
      in case fill_matrix (transitions net) (place_ids net) 0 (transition_ids net) matrix of
           Inl e \<Rightarrow> Inl e
         | Inr m \<Rightarrow> Inr (net\<lparr>incidence_matrix := m\<rparr>))"

subsection \<open>\<^verbatim>\<open>_build_relationships\<close>\<close>

definition sorted_py :: "ident list \<Rightarrow> error + ident list" where
  \<comment> \<open>\<^verbatim>\<open>sorted(keys)\<close>: strings are ordered by code points, lexicographically; a list of two
     or more keys with \<^verbatim>\<open>None\<close> among them makes the comparison raise \<^verbatim>\<open>TypeError\<close>\<close>
  "sorted_py ks =
     (if None \<in> set ks \<and> 2 \<le> length ks then Inl TypeError else Inr (sort ks))"

definition reset_flow :: "(ident \<times> transition) list \<Rightarrow> (ident \<times> transition) list" where
  \<comment> \<open>the loop that empties the preset and the postset of every transition\<close>
  "reset_flow trs = map (\<lambda>(k, t). (k, t\<lparr>preset := [], postset := []\<rparr>)) trs"

fun fill_flow ::
  "(ident \<times> place) list \<Rightarrow> arc list \<Rightarrow> (ident \<times> transition) list \<Rightarrow> (ident \<times> transition) list"
  where
  \<comment> \<open>the loop over \<^verbatim>\<open>self.arcs\<close>\<close>
  "fill_flow pls [] trs = trs"
| "fill_flow pls (a # as) trs =
     (let src = source a; tgt = target a in
      if src \<in> fst ` set pls \<and> tgt \<in> fst ` set trs then
        fill_flow pls as (AList.map_entry tgt (\<lambda>t. t\<lparr>preset := preset t @ [src]\<rparr>) trs)
      else if src \<in> fst ` set trs \<and> tgt \<in> fst ` set pls then
        fill_flow pls as (AList.map_entry src (\<lambda>t. t\<lparr>postset := postset t @ [tgt]\<rparr>) trs)
      else fill_flow pls as trs)"

definition build_relationships :: "petri_net \<Rightarrow> error + petri_net" where
  "build_relationships net =
     (case sorted_py (map fst (places net)) of
        Inl e \<Rightarrow> Inl e
      | Inr pids \<Rightarrow>
          (case sorted_py (map fst (transitions net)) of
             Inl e \<Rightarrow> Inl e
           | Inr tids \<Rightarrow>
               generate_incidence_matrix
                 (net\<lparr>place_ids := pids, transition_ids := tids,
                      transitions := fill_flow (places net) (arcs net)
                        (reset_flow (transitions net))\<rparr>)))"

subsection \<open>\<^verbatim>\<open>load_from_pnml\<close>\<close>

definition strip_brace :: "string \<Rightarrow> string" where
  \<comment> \<open>\<^verbatim>\<open>s.strip('{')\<close>\<close>
  "strip_brace s =
     rev (dropWhile (\<lambda>c. c = CHR ''{'') (rev (dropWhile (\<lambda>c. c = CHR ''{'') s)))"

definition get_ns :: "element \<Rightarrow> string option" where
  \<comment> \<open>the prefix map \<^verbatim>\<open>ns\<close>: \<open>Some uri\<close> stands for \<^verbatim>\<open>{'pnml': uri}\<close> and \<open>None\<close> for the
     empty map. \<^verbatim>\<open>root.tag.split('}')\<close> always has a first part, so the \<^verbatim>\<open>IndexError\<close>
     handler that would give the empty map is never entered.\<close>
  "get_ns root = Some (strip_brace (takeWhile (\<lambda>c. c \<noteq> CHR ''}'') (el_tag root)))"

definition find_all :: "string option \<Rightarrow> element \<Rightarrow> string \<Rightarrow> element list" where
  "find_all ns node tag_name =
     (case ns of
        Some uri \<Rightarrow> findall_descendant node (qualified_name uri tag_name)
      | None \<Rightarrow> findall_descendant node tag_name)"

definition find_in :: "string option \<Rightarrow> element \<Rightarrow> string \<Rightarrow> element option" where
  \<comment> \<open>\<^verbatim>\<open>node.find('pnml:name', ns) if ns else node.find('name')\<close>\<close>
  "find_in ns node tag_name =
     (case ns of
        Some uri \<Rightarrow> find_child node (qualified_name uri tag_name)
      | None \<Rightarrow> find_child node tag_name)"

definition initial_marking :: "string option \<Rightarrow> element \<Rightarrow> error + int" where
  \<comment> \<open>the token count read for one place element\<close>
  "initial_marking ns pl =
     (case find_in ns pl ''initialMarking'' of
        None \<Rightarrow> Inr 0
      | Some marking_tag \<Rightarrow>
          (case find_in ns marking_tag ''text'' of
             None \<Rightarrow> Inr 0
           | Some text_tag \<Rightarrow>
               (case el_text text_tag of
                  None \<Rightarrow> Inr 0
                | Some s \<Rightarrow> if s = [] then Inr 0 else py_int s)))"

fun parse_places ::
  "string option \<Rightarrow> element list \<Rightarrow> (ident \<times> place) list \<Rightarrow> error + (ident \<times> place) list"
  where
  "parse_places ns [] pls = Inr pls"
| "parse_places ns (e # es) pls =
     (case initial_marking ns e of
        Inl err \<Rightarrow> Inl err
      | Inr m \<Rightarrow>
          parse_places ns es
            (AList.update (get e ''id'') \<lparr>place_id = get e ''id'', token = m\<rparr> pls))"

fun parse_transitions ::
  "element list \<Rightarrow> (ident \<times> transition) list \<Rightarrow> (ident \<times> transition) list"
  where
  "parse_transitions [] trs = trs"
| "parse_transitions (e # es) trs =
     parse_transitions es
       (AList.update (get e ''id'')
          \<lparr>trans_id = get e ''id'', preset = [], postset = []\<rparr> trs)"

definition parse_arc :: "element \<Rightarrow> arc" where
  "parse_arc e = \<lparr>arc_id = get e ''id'', source = get e ''source'', target = get e ''target''\<rparr>"

definition load_from_pnml :: "petri_net \<Rightarrow> element option \<Rightarrow> error + (bool \<times> petri_net)" where
  \<comment> \<open>the second argument is the outcome of \<^verbatim>\<open>ET.parse(file_path).getroot()\<close>: \<open>None\<close> when
     the file cannot be read or parsed\<close>
  "load_from_pnml net parsed =
     (case parsed of
        None \<Rightarrow> Inr (False, net)
      | Some root \<Rightarrow>
          (let ns = get_ns root in
           case parse_places ns (find_all ns root ''place'') (places net) of
             Inl e \<Rightarrow> Inl e
           | Inr pls \<Rightarrow>
               (case build_relationships
                       (net\<lparr>places := pls,
                            transitions :=
                              parse_transitions (find_all ns root ''transition'') (transitions net),
                            arcs := arcs net @ map parse_arc (find_all ns root ''arc'')\<rparr>) of
                  Inl e \<Rightarrow> Inl e
                | Inr net' \<Rightarrow> Inr (True, net'))))"

subsection \<open>\<^verbatim>\<open>check_consistency\<close>\<close>

text \<open>
  The messages are Vietnamese sentences; a defect stands for the message, with the values
  that the sentence interpolates (the identifier of the arc and the missing end point).
  The lines printed are the output of the method next to its result.
\<close>

datatype defect =
  NoPlaces | NoTransitions | MissingSource ident ident | MissingTarget ident ident

datatype out_line = Header | Passed | Failed | Item defect

fun check_arcs :: "ident set \<Rightarrow> arc list \<Rightarrow> defect list \<Rightarrow> defect list" where
  "check_arcs all_nodes [] errors = errors"
| "check_arcs all_nodes (a # as) errors =
     (let errors1 =
            (if source a \<notin> all_nodes then errors @ [MissingSource (arc_id a) (source a)]
             else errors);
          errors2 =
            (if target a \<notin> all_nodes then errors1 @ [MissingTarget (arc_id a) (target a)]
             else errors1)
      in check_arcs all_nodes as errors2)"

definition consistency_errors :: "petri_net \<Rightarrow> defect list" where
  \<comment> \<open>the list \<^verbatim>\<open>errors\<close> when the loop over the arcs has ended\<close>
  "consistency_errors net =
     (let all_nodes = set (map fst (places net)) \<union> set (map fst (transitions net));
          errors0 = (if places net = [] then [NoPlaces] else []);
          errors1 = (if transitions net = [] then errors0 @ [NoTransitions] else errors0)
      in check_arcs all_nodes (arcs net) errors1)"

definition check_consistency :: "petri_net \<Rightarrow> out_line list \<times> bool" where
  "check_consistency net =
     (let errors = consistency_errors net in
      if errors = [] then ([Header, Passed], True)
      else (Header # Failed # map Item errors, False))"

subsection \<open>The shape of a matrix\<close>

definition shape :: "int list list \<Rightarrow> nat \<Rightarrow> nat \<Rightarrow> bool" where
  \<comment> \<open>\<open>n_p\<close> rows of \<open>n_t\<close> columns each\<close>
  "shape m n_p n_t \<longleftrightarrow> length m = n_p \<and> (\<forall>row \<in> set m. length row = n_t)"

definition column_delta :: "(ident \<times> transition) list \<Rightarrow> ident \<Rightarrow> ident \<Rightarrow> int" where
  \<comment> \<open>what the postset and the preset of transition \<open>t\<close> contribute to the row of place \<open>p\<close>\<close>
  "column_delta trs t p =
     (case map_of trs t of
        None \<Rightarrow> 0
      | Some tr \<Rightarrow> int (count_list (postset tr) p) - int (count_list (preset tr) p))"

definition flow_in :: "ident set \<Rightarrow> (ident \<times> transition) list \<Rightarrow> bool" where
  \<comment> \<open>every identifier of every preset and postset lies in \<open>K\<close>\<close>
  "flow_in K trs \<longleftrightarrow> (\<forall>(k, tr) \<in> set trs. set (preset tr) \<subseteq> K \<and> set (postset tr) \<subseteq> K)"

subsection \<open>The defects as the specification lists them\<close>

definition arc_defects :: "ident set \<Rightarrow> arc \<Rightarrow> defect list" where
  \<comment> \<open>the specification's defects of one arc: one for each end point that is unknown, the
     source first\<close>
  "arc_defects all_nodes a =
     (if source a \<in> all_nodes then [] else [MissingSource (arc_id a) (source a)]) @
     (if target a \<in> all_nodes then [] else [MissingTarget (arc_id a) (target a)])"

definition global_defects :: "petri_net \<Rightarrow> defect list" where
  \<comment> \<open>the specification's global checks: a net has a place, a net has a transition\<close>
  "global_defects net =
     (if places net = [] then [NoPlaces] else []) @
     (if transitions net = [] then [NoTransitions] else [])"

definition node_ids :: "petri_net \<Rightarrow> ident set" where
  \<comment> \<open>the union of the place and the transition identifiers\<close>
  "node_ids net = fst ` set (places net) \<union> fst ` set (transitions net)"

subsection \<open>Example documents and nets\<close>

definition mk_place :: "string \<Rightarrow> string option option \<Rightarrow> element" where
  \<comment> \<open>a place element in the namespace \<^verbatim>\<open>u\<close>: without marking, or with a marking whose
     text element has the given text\<close>
  "mk_place i m = Element ''{u}place'' [(''id'', i)] None
     (case m of None \<Rightarrow> []
      | Some s \<Rightarrow> [Element ''{u}initialMarking'' [] None [Element ''{u}text'' [] s []]])"

definition mk_arc :: "string \<Rightarrow> string \<Rightarrow> string \<Rightarrow> element" where
  "mk_arc i s t = Element ''{u}arc'' [(''id'', i), (''source'', s), (''target'', t)] None []"

definition doc_loop :: element where
  \<comment> \<open>three places, one transition, the pair of arcs \<^verbatim>\<open>p1->t1\<close> and \<^verbatim>\<open>t1->p1\<close>, an arc
     to \<^verbatim>\<open>p2\<close> and an arc from the unknown \<^verbatim>\<open>p9\<close>\<close>
  "doc_loop = Element ''{u}pnml'' [] None [Element ''{u}net'' [(''id'', ''n1'')] None
     [mk_place ''p2'' None,
      mk_place ''p1'' (Some (Some ''5'')),
      mk_place ''p3'' (Some None),
      Element ''{u}transition'' [(''id'', ''t1'')] None [],
      mk_arc ''a1'' ''p1'' ''t1'',
      mk_arc ''a2'' ''t1'' ''p1'',
      mk_arc ''a3'' ''t1'' ''p2'',
      mk_arc ''a4'' ''p9'' ''t1'']]"

definition net_loop :: petri_net where
  \<comment> \<open>the object after loading \<^const>\<open>doc_loop\<close>\<close>
  "net_loop =
     \<lparr>places = [(Some ''p2'', \<lparr>place_id = Some ''p2'', token = 0\<rparr>),
                (Some ''p1'', \<lparr>place_id = Some ''p1'', token = 5\<rparr>),
                (Some ''p3'', \<lparr>place_id = Some ''p3'', token = 0\<rparr>)],
      transitions = [(Some ''t1'', \<lparr>trans_id = Some ''t1'', preset = [Some ''p1''],
                       postset = [Some ''p1'', Some ''p2'']\<rparr>)],
      arcs = [\<lparr>arc_id = Some ''a1'', source = Some ''p1'', target = Some ''t1''\<rparr>,
              \<lparr>arc_id = Some ''a2'', source = Some ''t1'', target = Some ''p1''\<rparr>,
              \<lparr>arc_id = Some ''a3'', source = Some ''t1'', target = Some ''p2''\<rparr>,
              \<lparr>arc_id = Some ''a4'', source = Some ''p9'', target = Some ''t1''\<rparr>],
      place_ids = [Some ''p1'', Some ''p2'', Some ''p3''],
      transition_ids = [Some ''t1''],
      incidence_matrix = [[0], [1], [0]]\<rparr>"

subsection \<open>The same document without namespace, further examples\<close>

definition local_name :: "string \<Rightarrow> string" where
  \<comment> \<open>a tag without its namespace: \<^verbatim>\<open>{uri}name\<close> becomes \<^verbatim>\<open>name\<close>\<close>
  "local_name t = (if take 1 t = ''{'' then drop 1 (dropWhile (\<lambda>c. c \<noteq> CHR ''}'') t) else t)"

fun unqualify :: "element \<Rightarrow> element" where
  \<comment> \<open>the same document with no namespace on any element\<close>
  "unqualify (Element t a x cs) = Element (local_name t) a x (map unqualify cs)"

definition doc_one :: element where
  \<comment> \<open>a document with the single place \<^verbatim>\<open>q1\<close>\<close>
  "doc_one = Element ''{u}pnml'' [] None [Element ''{u}net'' [(''id'', ''n2'')] None
     [mk_place ''q1'' None]]"

definition doc_bad :: element where
  \<comment> \<open>a document whose place has the marking text \<^verbatim>\<open>abc\<close>\<close>
  "doc_bad = Element ''{u}pnml'' [] None [Element ''{u}net'' [(''id'', ''n3'')] None
     [mk_place ''p1'' (Some (Some ''abc''))]]"

definition net_one :: petri_net where
  \<comment> \<open>the object after loading \<^const>\<open>doc_one\<close> into a new object\<close>
  "net_one =
     \<lparr>places = [(Some ''q1'', \<lparr>place_id = Some ''q1'', token = 0\<rparr>)],
      transitions = [], arcs = [], place_ids = [Some ''q1''], transition_ids = [],
      incidence_matrix = [[]]\<rparr>"

definition net_both :: petri_net where
  \<comment> \<open>the object after loading \<^const>\<open>doc_loop\<close> and then \<^const>\<open>doc_one\<close>\<close>
  "net_both =
     net_loop\<lparr>places := places net_loop @ [(Some ''q1'', \<lparr>place_id = Some ''q1'', token = 0\<rparr>)],
              place_ids := [Some ''p1'', Some ''p2'', Some ''p3'', Some ''q1''],
              incidence_matrix := [[0], [1], [0], [0]]\<rparr>"

subsection \<open>Documents in a namespace, read off the tree\<close>

definition elements :: "element \<Rightarrow> string \<Rightarrow> element list" where
  \<comment> \<open>the elements of a document with a given local name, in document order, whatever
     their namespace (the root is not among them)\<close>
  "elements root name =
     filter (\<lambda>e. local_name (el_tag e) = name) (concat (map iter_el (children root)))"

definition doc_child :: "element \<Rightarrow> string \<Rightarrow> element option" where
  \<comment> \<open>the first child with a given local name\<close>
  "doc_child e name = find (\<lambda>c. local_name (el_tag c) = name) (children e)"

definition namespaced :: "string \<Rightarrow> element \<Rightarrow> bool" where
  \<comment> \<open>a document all of whose elements lie in the namespace \<open>u\<close>, a name without braces
     that is not \<^verbatim>\<open>*\<close>\<close>
  "namespaced u root \<longleftrightarrow>
     u \<noteq> [] \<and> u \<noteq> ''*'' \<and> CHR ''{'' \<notin> set u \<and> CHR ''}'' \<notin> set u \<and>
     (\<forall>e \<in> set (iter_el root). el_tag e = qualified_name u (local_name (el_tag e)))"

definition doc_marking :: "element \<Rightarrow> string option" where
  \<comment> \<open>the marking text of a place element, read off the document: \<open>None\<close> when the
     \<^verbatim>\<open>initialMarking\<close> element, its \<^verbatim>\<open>text\<close> element or the text of that element is missing\<close>
  "doc_marking pl =
     (case doc_child pl ''initialMarking'' of
        None \<Rightarrow> None
      | Some marking_tag \<Rightarrow>
          (case doc_child marking_tag ''text'' of
             None \<Rightarrow> None
           | Some text_tag \<Rightarrow> el_text text_tag))"

definition bad_marking :: "element \<Rightarrow> bool" where
  \<comment> \<open>the place has a marking text that is not empty and that \<^verbatim>\<open>int\<close> rejects\<close>
  "bad_marking pl \<longleftrightarrow>
     (case doc_marking pl of None \<Rightarrow> False | Some s \<Rightarrow> s \<noteq> [] \<and> isl (py_int s))"

definition marking_value :: "element \<Rightarrow> int" where
  \<comment> \<open>the token count of a place element: 0 without marking text or with the empty one,
     the number that \<^verbatim>\<open>int\<close> reads otherwise\<close>
  "marking_value pl =
     (case doc_marking pl of
        None \<Rightarrow> 0
      | Some s \<Rightarrow> if s = [] then 0 else (case py_int s of Inl e \<Rightarrow> 0 | Inr v \<Rightarrow> v))"

definition doc_place :: "element \<Rightarrow> ident \<times> place" where
  \<comment> \<open>the dictionary entry of a place element of the document\<close>
  "doc_place e = (get e ''id'', \<lparr>place_id = get e ''id'', token = marking_value e\<rparr>)"

definition doc_place_ids :: "element \<Rightarrow> ident set" where
  \<comment> \<open>the identifiers of the place elements of a document\<close>
  "doc_place_ids root = (\<lambda>e. get e ''id'') ` set (elements root ''place'')"

definition doc_transition_ids :: "element \<Rightarrow> ident set" where
  \<comment> \<open>the identifiers of the transition elements of a document\<close>
  "doc_transition_ids root = (\<lambda>e. get e ''id'') ` set (elements root ''transition'')"

subsection \<open>Presets and postsets read off the arcs\<close>

definition input_arc :: "ident set \<Rightarrow> ident set \<Rightarrow> arc \<Rightarrow> bool" where
  \<comment> \<open>an arc from a place in \<open>P\<close> to a transition in \<open>T\<close>\<close>
  "input_arc P T a \<longleftrightarrow> source a \<in> P \<and> target a \<in> T"

definition output_arc :: "ident set \<Rightarrow> ident set \<Rightarrow> arc \<Rightarrow> bool" where
  \<comment> \<open>an arc from a transition in \<open>T\<close> to a place in \<open>P\<close> that is not an input arc as well\<close>
  "output_arc P T a \<longleftrightarrow> \<not> input_arc P T a \<and> source a \<in> T \<and> target a \<in> P"

definition preset_of_arcs :: "petri_net \<Rightarrow> ident \<Rightarrow> ident list" where
  \<comment> \<open>the sources of the input arcs into transition \<open>k\<close>, in the order of the arc list\<close>
  "preset_of_arcs net k =
     map source
       (filter (\<lambda>a. input_arc (fst ` set (places net)) (fst ` set (transitions net)) a
                     \<and> target a = k)
          (arcs net))"

definition postset_of_arcs :: "petri_net \<Rightarrow> ident \<Rightarrow> ident list" where
  \<comment> \<open>the targets of the output arcs out of transition \<open>k\<close>, in the order of the arc list\<close>
  "postset_of_arcs net k =
     map target
       (filter (\<lambda>a. output_arc (fst ` set (places net)) (fst ` set (transitions net)) a
                     \<and> source a = k)
          (arcs net))"

definition net_stale :: petri_net where
  \<comment> \<open>the net of \<^const>\<open>doc_loop\<close> with a preset, a postset, identifier lists and a matrix
     that do not belong to its arcs\<close>
  "net_stale =
     net_loop\<lparr>transitions := [(Some ''t1'', \<lparr>trans_id = Some ''t1'',
                                  preset = [Some ''p3'', Some ''p3''], postset = [Some ''p9'']\<rparr>)],
               place_ids := [Some ''zz''], transition_ids := [], incidence_matrix := [[7]]\<rparr>"

definition doc_a :: element where
  \<comment> \<open>place \<^verbatim>\<open>p1\<close> with marking text \<^verbatim>\<open>1\<close>, place \<^verbatim>\<open>p2\<close> without marking, transition
     \<^verbatim>\<open>t1\<close>, arcs \<^verbatim>\<open>p1->t1\<close> and \<^verbatim>\<open>t1->p2\<close>\<close>
  "doc_a = Element ''{u}pnml'' [] None [Element ''{u}net'' [(''id'', ''n4'')] None
     [mk_place ''p1'' (Some (Some ''1'')),
      mk_place ''p2'' None,
      Element ''{u}transition'' [(''id'', ''t1'')] None [],
      mk_arc ''a1'' ''p1'' ''t1'',
      mk_arc ''a2'' ''t1'' ''p2'']]"

definition net_a :: petri_net where
  \<comment> \<open>the object after loading \<^const>\<open>doc_a\<close> into a new object\<close>
  "net_a =
     \<lparr>places = [(Some ''p1'', \<lparr>place_id = Some ''p1'', token = 1\<rparr>),
                (Some ''p2'', \<lparr>place_id = Some ''p2'', token = 0\<rparr>)],
      transitions = [(Some ''t1'', \<lparr>trans_id = Some ''t1'', preset = [Some ''p1''],
                       postset = [Some ''p2'']\<rparr>)],
      arcs = [\<lparr>arc_id = Some ''a1'', source = Some ''p1'', target = Some ''t1''\<rparr>,
              \<lparr>arc_id = Some ''a2'', source = Some ''t1'', target = Some ''p2''\<rparr>],
      place_ids = [Some ''p1'', Some ''p2''],
      transition_ids = [Some ''t1''],
      incidence_matrix = [[- 1], [1]]\<rparr>"

section \<open>Properties\<close>

subsection \<open>Rows, cells and columns of the matrix\<close>

lemma shape_nth: "shape m n_p n_t \<Longrightarrow> i < n_p \<Longrightarrow> length (m ! i) = n_t"
  by (simp add: shape_def)

lemma index_py_Inr: "index_py xs x = Inr i \<Longrightarrow> i < length xs \<and> xs ! i = x"
  by (induction xs arbitrary: i) (auto split: if_splits sum.splits)

lemma index_py_mem: "x \<in> set xs \<Longrightarrow> \<exists>i. index_py xs x = Inr i"
  by (induction xs) auto

lemma index_py_distinct:
  "distinct xs \<Longrightarrow> index_py xs x = Inr i \<Longrightarrow> k < length xs \<Longrightarrow> (i = k) = (x = xs ! k)"
proof -
  assume d: "distinct xs" and i: "index_py xs x = Inr i" and k: "k < length xs"
  from index_py_Inr[OF i] have "i < length xs" "xs ! i = x" by auto
  with d k show ?thesis by (auto simp: nth_eq_iff_index_eq)
qed

lemma add_cell_shape:
  assumes "add_cell m i j d = Inr m'" "shape m n_p n_t"
  shows "shape m' n_p n_t"
proof -
  from assms(1) have i: "i < length m" and m': "m' = m[i := (m ! i)[j := m ! i ! j + d]]"
    by (auto simp: add_cell_def split: if_splits)
  have "length row = n_t" if "row \<in> set m'" for row
  proof -
    from that have "row = (m ! i)[j := m ! i ! j + d] \<or> row \<in> set m"
      unfolding m' using set_update_subset_insert[of m i] by blast
    then show ?thesis using assms(2) i by (auto simp: shape_def)
  qed
  then show ?thesis using assms(2) by (simp add: shape_def m')
qed

lemma add_cell_nth:
  "add_cell m i j d = Inr m' \<Longrightarrow> r < length m \<Longrightarrow> k < length (m ! r) \<Longrightarrow>
     m' ! r ! k = m ! r ! k + (if r = i \<and> k = j then d else 0)"
  by (auto simp: add_cell_def nth_list_update split: if_splits)

lemma add_cell_ok: "i < length m \<Longrightarrow> j < length (m ! i) \<Longrightarrow> \<exists>m'. add_cell m i j d = Inr m'"
  by (simp add: add_cell_def)

lemma sum_list_update_int: "i < length xs \<Longrightarrow> sum_list (xs[i := v]) = sum_list xs - xs ! i + (v::int)"
  by (induction xs arbitrary: i) (auto split: nat.splits)

lemma add_cell_colsum:
  assumes "add_cell m i j d = Inr m'"
  shows "(\<Sum>row\<leftarrow>m'. row ! k) = (\<Sum>row\<leftarrow>m. row ! k) + (if k = j then d else 0)"
proof -
  from assms have i: "i < length m" and j: "j < length (m ! i)"
    and m': "m' = m[i := (m ! i)[j := m ! i ! j + d]]"
    by (auto simp: add_cell_def split: if_splits)
  have "map (\<lambda>row. row ! k) m' = (map (\<lambda>row. row ! k) m)[i := (m ! i)[j := m ! i ! j + d] ! k]"
    by (simp add: m' map_update)
  then show ?thesis using i j
    by (simp add: sum_list_update_int nth_list_update)
qed


lemma add_column_shape:
  "add_column d pids j ps m = Inr m' \<Longrightarrow> shape m n_p n_t \<Longrightarrow> shape m' n_p n_t"
proof (induction ps arbitrary: m)
  case Nil
  then show ?case by simp
next
  case (Cons p ps)
  from Cons.prems(1) obtain i m1 where 1: "index_py pids p = Inr i"
    and 2: "add_cell m i j d = Inr m1" and 3: "add_column d pids j ps m1 = Inr m'"
    by (simp split: sum.splits)
  from add_cell_shape[OF 2 Cons.prems(2)] show ?case by (rule Cons.IH[OF 3])
qed

lemma add_column_colsum:
  "add_column d pids j ps m = Inr m' \<Longrightarrow>
     (\<Sum>row\<leftarrow>m'. row ! k) = (\<Sum>row\<leftarrow>m. row ! k) + (if k = j then d * int (length ps) else 0)"
proof (induction ps arbitrary: m)
  case Nil
  then show ?case by simp
next
  case (Cons p ps)
  from Cons.prems(1) obtain i m1 where 1: "index_py pids p = Inr i"
    and 2: "add_cell m i j d = Inr m1" and 3: "add_column d pids j ps m1 = Inr m'"
    by (simp split: sum.splits)
  show ?case using Cons.IH[OF 3] add_cell_colsum[OF 2, of k]
    by (simp add: algebra_simps)
qed

lemma add_column_nth:
  assumes "add_column d pids j ps m = Inr m'" "distinct pids" "shape m (length pids) n_t"
    "r < length pids" "k < n_t"
  shows "m' ! r ! k = m ! r ! k + (if k = j then d * int (count_list ps (pids ! r)) else 0)"
  using assms
proof (induction ps arbitrary: m)
  case Nil
  then show ?case by simp
next
  case (Cons p ps)
  from Cons.prems(1) obtain i m1 where 1: "index_py pids p = Inr i"
    and 2: "add_cell m i j d = Inr m1" and 3: "add_column d pids j ps m1 = Inr m'"
    by (simp split: sum.splits)
  have sh1: "shape m1 (length pids) n_t" using add_cell_shape[OF 2 Cons.prems(3)] .
  have rm: "r < length m" "k < length (m ! r)"
    using Cons.prems(3,4,5) by (simp_all add: shape_def)
  have eq: "(r = i) = (p = pids ! r)"
    using index_py_distinct[OF Cons.prems(2) 1 Cons.prems(4)] by auto
  have "m' ! r ! k = m1 ! r ! k + (if k = j then d * int (count_list ps (pids ! r)) else 0)"
    using Cons.IH[OF 3 Cons.prems(2) sh1 Cons.prems(4,5)] .
  also have "m1 ! r ! k = m ! r ! k + (if r = i \<and> k = j then d else 0)"
    using add_cell_nth[OF 2 rm] .
  finally show ?case using eq by (cases "k = j"; cases "p = pids ! r"; simp add: distrib_left)
qed


lemma add_column_ok:
  assumes "set ps \<subseteq> set pids" "shape m (length pids) n_t" "j < n_t"
  shows "\<exists>m'. add_column d pids j ps m = Inr m'"
  using assms
proof (induction ps arbitrary: m)
  case Nil
  show ?case by simp
next
  case (Cons p ps)
  from Cons.prems(1) have "p \<in> set pids" by simp
  from index_py_mem[OF this] obtain i where 1: "index_py pids p = Inr i" ..
  from index_py_Inr[OF 1] have il: "i < length pids" ..
  have im: "i < length m" using il Cons.prems(2) by (simp add: shape_def)
  have jm: "j < length (m ! i)" using shape_nth[OF Cons.prems(2) il] Cons.prems(3) by simp
  from add_cell_ok[OF im jm] obtain m1 where 2: "add_cell m i j d = Inr m1" ..
  have sh1: "shape m1 (length pids) n_t" using add_cell_shape[OF 2 Cons.prems(2)] .
  have sub: "set ps \<subseteq> set pids" using Cons.prems(1) by simp
  from Cons.IH[OF sub sh1 Cons.prems(3)] obtain m' where 3: "add_column d pids j ps m1 = Inr m'" ..
  have "add_column d pids j (p # ps) m = Inr m'" by (simp add: 1 2 3)
  then show ?case ..
qed


lemma fill_matrix_shape:
  "fill_matrix trs pids j ts m = Inr m' \<Longrightarrow> shape m n_p n_t \<Longrightarrow> shape m' n_p n_t"
proof (induction ts arbitrary: m j)
  case Nil
  then show ?case by simp
next
  case (Cons t ts)
  from Cons.prems(1) obtain tr m1 m2 where 0: "map_of trs t = Some tr"
    and 1: "add_column (- 1) pids j (preset tr) m = Inr m1"
    and 2: "add_column 1 pids j (postset tr) m1 = Inr m2"
    and 3: "fill_matrix trs pids (Suc j) ts m2 = Inr m'"
    by (simp split: option.splits sum.splits)
  have "shape m2 n_p n_t"
    using add_column_shape[OF 2 add_column_shape[OF 1 Cons.prems(2)]] .
  then show ?case by (rule Cons.IH[OF 3])
qed

lemma fill_matrix_colsum:
  "fill_matrix trs pids j ts m = Inr m' \<Longrightarrow>
     (\<Sum>row\<leftarrow>m'. row ! k) = (\<Sum>row\<leftarrow>m. row ! k) +
       (if j \<le> k \<and> k < j + length ts
        then (case map_of trs (ts ! (k - j)) of
                None \<Rightarrow> 0
              | Some tr \<Rightarrow> int (length (postset tr)) - int (length (preset tr)))
        else 0)"
proof (induction ts arbitrary: m j)
  case Nil
  then show ?case by simp
next
  case (Cons t ts)
  from Cons.prems(1) obtain tr m1 m2 where 0: "map_of trs t = Some tr"
    and 1: "add_column (- 1) pids j (preset tr) m = Inr m1"
    and 2: "add_column 1 pids j (postset tr) m1 = Inr m2"
    and 3: "fill_matrix trs pids (Suc j) ts m2 = Inr m'"
    by (simp split: option.splits sum.splits)
  note s1 = add_column_colsum[OF 1, of k] and s2 = add_column_colsum[OF 2, of k]
    and s3 = Cons.IH[OF 3]
  show ?case
  proof (cases "k = j")
    case True
    then show ?thesis using s1 s2 s3 0 by simp
  next
    case False
    show ?thesis
    proof (cases "j < k \<and> k < Suc j + length ts")
      case True
      then have "k - j = Suc (k - Suc j)" by arith
      then have "(t # ts) ! (k - j) = ts ! (k - Suc j)" by simp
      then show ?thesis using s1 s2 s3 False True by simp
    next
      case False
      then show ?thesis using s1 s2 s3 \<open>k \<noteq> j\<close> by auto
    qed
  qed
qed

lemma fill_matrix_nth:
  assumes "fill_matrix trs pids j ts m = Inr m'" "distinct pids" "shape m (length pids) n_t"
    "r < length pids" "k < n_t"
  shows "m' ! r ! k = m ! r ! k +
       (if j \<le> k \<and> k < j + length ts then column_delta trs (ts ! (k - j)) (pids ! r) else 0)"
  using assms
proof (induction ts arbitrary: m j)
  case Nil
  then show ?case by simp
next
  case (Cons t ts)
  from Cons.prems(1) obtain tr m1 m2 where 0: "map_of trs t = Some tr"
    and 1: "add_column (- 1) pids j (preset tr) m = Inr m1"
    and 2: "add_column 1 pids j (postset tr) m1 = Inr m2"
    and 3: "fill_matrix trs pids (Suc j) ts m2 = Inr m'"
    by (simp split: option.splits sum.splits)
  have sh1: "shape m1 (length pids) n_t" using add_column_shape[OF 1 Cons.prems(3)] .
  have sh2: "shape m2 (length pids) n_t" using add_column_shape[OF 2 sh1] .
  note s1 = add_column_nth[OF 1 Cons.prems(2,3,4,5)]
    and s2 = add_column_nth[OF 2 Cons.prems(2) sh1 Cons.prems(4,5)]
    and s3 = Cons.IH[OF 3 Cons.prems(2) sh2 Cons.prems(4,5)]
  show ?case
  proof (cases "k = j")
    case True
    then show ?thesis using s1 s2 s3 0 by (simp add: column_delta_def)
  next
    case False
    show ?thesis
    proof (cases "j < k \<and> k < Suc j + length ts")
      case True
      then have "k - j = Suc (k - Suc j)" by arith
      then have "(t # ts) ! (k - j) = ts ! (k - Suc j)" by simp
      then show ?thesis using s1 s2 s3 False True by simp
    next
      case False
      then show ?thesis using s1 s2 s3 \<open>k \<noteq> j\<close> by auto
    qed
  qed
qed

lemma fill_matrix_ok:
  assumes "set ts \<subseteq> fst ` set trs"
    "\<forall>(k, tr) \<in> set trs. set (preset tr) \<subseteq> set pids \<and> set (postset tr) \<subseteq> set pids"
    "shape m (length pids) n_t" "j + length ts \<le> n_t"
  shows "\<exists>m'. fill_matrix trs pids j ts m = Inr m'"
  using assms
proof (induction ts arbitrary: m j)
  case Nil
  show ?case by simp
next
  case (Cons t ts)
  from Cons.prems(1) have "t \<in> fst ` set trs" by simp
  then obtain tr where 0: "map_of trs t = Some tr"
    by (metis domD dom_map_of_conv_image_fst)
  then have "(t, tr) \<in> set trs" by (rule map_of_SomeD)
  with Cons.prems(2) have sub: "set (preset tr) \<subseteq> set pids" "set (postset tr) \<subseteq> set pids"
    by auto
  have j: "j < n_t" using Cons.prems(4) by simp
  from add_column_ok[OF sub(1) Cons.prems(3) j] obtain m1
    where 1: "add_column (- 1) pids j (preset tr) m = Inr m1" ..
  have sh1: "shape m1 (length pids) n_t" using add_column_shape[OF 1 Cons.prems(3)] .
  from add_column_ok[OF sub(2) sh1 j] obtain m2
    where 2: "add_column 1 pids j (postset tr) m1 = Inr m2" ..
  have sh2: "shape m2 (length pids) n_t" using add_column_shape[OF 2 sh1] .
  have ts: "set ts \<subseteq> fst ` set trs" using Cons.prems(1) by simp
  have le: "Suc j + length ts \<le> n_t" using Cons.prems(4) by simp
  from Cons.IH[OF ts Cons.prems(2) sh2 le] obtain m'
    where 3: "fill_matrix trs pids (Suc j) ts m2 = Inr m'" ..
  have "fill_matrix trs pids j (t # ts) m = Inr m'" by (simp add: 0 1 2 3)
  then show ?case ..
qed


subsection \<open>Relationship building\<close>

lemma shape_replicate: "shape (replicate n_p (replicate n_t 0)) n_p n_t"
  by (simp add: shape_def)

lemma generate_Inr:
  assumes "generate_incidence_matrix net = Inr net'"
  shows "fill_matrix (transitions net) (place_ids net) 0 (transition_ids net)
           (replicate (length (place_ids net)) (replicate (length (transition_ids net)) 0))
         = Inr (incidence_matrix net') \<and> net' = net\<lparr>incidence_matrix := incidence_matrix net'\<rparr>"
  using assms by (auto simp: generate_incidence_matrix_def Let_def split: sum.splits)

lemma sorted_py_Inr: "sorted_py ks = Inr xs \<Longrightarrow> xs = sort ks"
  by (simp add: sorted_py_def split: if_splits)

lemma map_fst_map_entry: "map fst (AList.map_entry k f xs) = map fst xs"
  by (induction xs) auto

lemma map_fst_reset_flow: "map fst (reset_flow trs) = map fst trs"
  by (induction trs) (auto simp: reset_flow_def)

lemma map_fst_fill_flow: "map fst (fill_flow pls as trs) = map fst trs"
proof (induction as arbitrary: trs)
  case Nil
  show ?case by simp
next
  case (Cons a as)
  show ?case
    by (simp add: Let_def Cons.IH map_fst_map_entry)
qed

lemma reset_flow_map_entry_preset:
  "reset_flow (AList.map_entry k (\<lambda>t. t\<lparr>preset := preset t @ [x]\<rparr>) trs) = reset_flow trs"
  by (induction trs) (auto simp: reset_flow_def)

lemma reset_flow_map_entry_postset:
  "reset_flow (AList.map_entry k (\<lambda>t. t\<lparr>postset := postset t @ [x]\<rparr>) trs) = reset_flow trs"
  by (induction trs) (auto simp: reset_flow_def)

lemma reset_flow_fill_flow: "reset_flow (fill_flow pls as trs) = reset_flow trs"
proof (induction as arbitrary: trs)
  case Nil
  show ?case by simp
next
  case (Cons a as)
  show ?case
    by (simp add: Let_def Cons.IH reset_flow_map_entry_preset reset_flow_map_entry_postset)
qed

lemma set_map_entry:
  "kv \<in> set (AList.map_entry k f xs) \<Longrightarrow> kv \<in> set xs \<or> (\<exists>v. (k, v) \<in> set xs \<and> kv = (k, f v))"
  by (induction xs) (auto split: if_splits)

lemma flow_in_reset: "flow_in K (reset_flow trs)"
  by (auto simp: flow_in_def reset_flow_def)

lemma flow_in_map_entry_preset:
  assumes "flow_in K trs" "x \<in> K"
  shows "flow_in K (AList.map_entry k (\<lambda>t. t\<lparr>preset := preset t @ [x]\<rparr>) trs)"
  unfolding flow_in_def
proof (clarify)
  fix k' tr assume "(k', tr) \<in> set (AList.map_entry k (\<lambda>t. t\<lparr>preset := preset t @ [x]\<rparr>) trs)"
  from set_map_entry[OF this]
  consider "(k', tr) \<in> set trs"
    | v where "(k, v) \<in> set trs" "tr = v\<lparr>preset := preset v @ [x]\<rparr>"
    by auto
  then show "set (preset tr) \<subseteq> K \<and> set (postset tr) \<subseteq> K"
  proof cases
    case 1
    with assms(1) show ?thesis unfolding flow_in_def by fastforce
  next
    case 2
    from 2(1) assms(1) have "set (preset v) \<subseteq> K \<and> set (postset v) \<subseteq> K"
      unfolding flow_in_def by fastforce
    with 2(2) assms(2) show ?thesis by simp
  qed
qed

lemma flow_in_map_entry_postset:
  assumes "flow_in K trs" "x \<in> K"
  shows "flow_in K (AList.map_entry k (\<lambda>t. t\<lparr>postset := postset t @ [x]\<rparr>) trs)"
  unfolding flow_in_def
proof (clarify)
  fix k' tr assume "(k', tr) \<in> set (AList.map_entry k (\<lambda>t. t\<lparr>postset := postset t @ [x]\<rparr>) trs)"
  from set_map_entry[OF this]
  consider "(k', tr) \<in> set trs"
    | v where "(k, v) \<in> set trs" "tr = v\<lparr>postset := postset v @ [x]\<rparr>"
    by auto
  then show "set (preset tr) \<subseteq> K \<and> set (postset tr) \<subseteq> K"
  proof cases
    case 1
    with assms(1) show ?thesis unfolding flow_in_def by fastforce
  next
    case 2
    from 2(1) assms(1) have "set (preset v) \<subseteq> K \<and> set (postset v) \<subseteq> K"
      unfolding flow_in_def by fastforce
    with 2(2) assms(2) show ?thesis by simp
  qed
qed

lemma flow_in_fill_flow:
  "flow_in (fst ` set pls) trs \<Longrightarrow> flow_in (fst ` set pls) (fill_flow pls as trs)"
proof (induction as arbitrary: trs)
  case Nil
  then show ?case by simp
next
  case (Cons a as)
  show ?case
    using Cons.prems
    by (auto simp: Let_def intro!: Cons.IH flow_in_map_entry_preset flow_in_map_entry_postset)
qed


lemma build_Inr:
  assumes "build_relationships net = Inr net'"
  shows "sorted_py (map fst (places net)) = Inr (place_ids net')"
    and "sorted_py (map fst (transitions net)) = Inr (transition_ids net')"
    and "transitions net' = fill_flow (places net) (arcs net) (reset_flow (transitions net))"
    and "places net' = places net"
    and "arcs net' = arcs net"
    and "fill_matrix (transitions net') (place_ids net') 0 (transition_ids net')
           (replicate (length (place_ids net')) (replicate (length (transition_ids net')) 0))
         = Inr (incidence_matrix net')"
proof -
  from assms obtain pids tids where p: "sorted_py (map fst (places net)) = Inr pids"
    and t: "sorted_py (map fst (transitions net)) = Inr tids"
    and g: "generate_incidence_matrix
              (net\<lparr>place_ids := pids, transition_ids := tids,
                   transitions := fill_flow (places net) (arcs net)
                     (reset_flow (transitions net))\<rparr>) = Inr net'"
    by (auto simp: build_relationships_def split: sum.splits)
  from generate_Inr[OF g] have f: "fill_matrix (fill_flow (places net) (arcs net) (reset_flow (transitions net)))
       pids 0 tids (replicate (length pids) (replicate (length tids) 0)) = Inr (incidence_matrix net')"
    and n: "net' = net\<lparr>place_ids := pids, transition_ids := tids,
                   transitions := fill_flow (places net) (arcs net)
                     (reset_flow (transitions net)), incidence_matrix := incidence_matrix net'\<rparr>"
    by simp_all
  have 1: "place_ids net' = pids" by (subst n) simp
  have 2: "transition_ids net' = tids" by (subst n) simp
  show 3: "transitions net' = fill_flow (places net) (arcs net) (reset_flow (transitions net))"
    by (subst n) simp
  show "places net' = places net" by (subst n) simp
  show "arcs net' = arcs net" by (subst n) simp
  show "sorted_py (map fst (places net)) = Inr (place_ids net')" using p 1 by simp
  show "sorted_py (map fst (transitions net)) = Inr (transition_ids net')" using t 2 by simp
  show "fill_matrix (transitions net') (place_ids net') 0 (transition_ids net')
           (replicate (length (place_ids net')) (replicate (length (transition_ids net')) 0))
         = Inr (incidence_matrix net')"
    using f 1 2 3 by simp
qed

lemma build_keys:
  assumes "build_relationships net = Inr net'"
  shows "map fst (transitions net') = map fst (transitions net)"
  by (simp add: build_Inr(3)[OF assms] map_fst_fill_flow map_fst_reset_flow)

lemma sorted_py_props:
  assumes "sorted_py ks = Inr xs"
  shows "set xs = set ks" "length xs = length ks" "distinct ks \<Longrightarrow> distinct xs"
    "distinct ks \<Longrightarrow> sorted_wrt (<) xs"
  using sorted_py_Inr[OF assms] by (simp_all add: strict_sorted_iff)


subsection \<open>The example net\<close>

lemma load_loop: "load_from_pnml PetriNet_init (Some doc_loop) = Inr (True, net_loop)"
  by code_simp

subsection \<open>The shape of the incidence matrix\<close>

text \<open>
  C8. Whenever \<^verbatim>\<open>_generate_incidence_matrix\<close> returns, the matrix has as many rows as
  \<^verbatim>\<open>place_ids\<close> has elements and every row has as many columns as \<^verbatim>\<open>transition_ids\<close>
  has elements; for a net without place and transition identifiers it returns the matrix
  with no rows.
\<close>

theorem matrix_shape:
  "(generate_incidence_matrix net = Inr net' \<longrightarrow>
      length (incidence_matrix net') = length (place_ids net') \<and>
      (\<forall>row \<in> set (incidence_matrix net'). length row = length (transition_ids net'))) \<and>
   (place_ids net = [] \<and> transition_ids net = [] \<longrightarrow>
      generate_incidence_matrix net = Inr (net\<lparr>incidence_matrix := []\<rparr>))"
proof (intro conjI impI)
  assume g: "generate_incidence_matrix net = Inr net'"
  from generate_Inr[OF g] have f: "fill_matrix (transitions net) (place_ids net) 0 (transition_ids net)
           (replicate (length (place_ids net)) (replicate (length (transition_ids net)) 0))
         = Inr (incidence_matrix net')"
    and n: "net' = net\<lparr>incidence_matrix := incidence_matrix net'\<rparr>" by simp_all
  have ids: "place_ids net' = place_ids net" "transition_ids net' = transition_ids net"
    by (subst n, simp)+
  have sh: "shape (incidence_matrix net') (length (place_ids net)) (length (transition_ids net))"
    using fill_matrix_shape[OF f shape_replicate] .
  show "length (incidence_matrix net') = length (place_ids net')"
    using sh ids by (simp add: shape_def)
  show "\<forall>row \<in> set (incidence_matrix net'). length row = length (transition_ids net')"
    using sh ids by (simp add: shape_def)
next
  assume "place_ids net = [] \<and> transition_ids net = []"
  then show "generate_incidence_matrix net = Inr (net\<lparr>incidence_matrix := []\<rparr>)"
    by (simp add: generate_incidence_matrix_def)
qed

theorem matrix_shape_witness:
  "generate_incidence_matrix net_loop = Inr net_loop \<and>
   length (incidence_matrix net_loop) = 3 \<and> length (place_ids net_loop) = 3 \<and>
   list_all (\<lambda>row. length row = 1) (incidence_matrix net_loop) \<and>
   length (transition_ids net_loop) = 1 \<and>
   generate_incidence_matrix PetriNet_init = Inr PetriNet_init"
proof -
  have g: "generate_incidence_matrix net_loop = Inr net_loop" by code_simp
  have e: "place_ids PetriNet_init = [] \<and> transition_ids PetriNet_init = []"
    by (simp add: PetriNet_init_def)
  have l: "length (place_ids net_loop) = 3" "length (transition_ids net_loop) = 1"
    by (simp_all add: net_loop_def)
  have i: "PetriNet_init\<lparr>incidence_matrix := []\<rparr> = PetriNet_init"
    by (simp add: PetriNet_init_def)
  from matrix_shape[of net_loop net_loop] matrix_shape[of PetriNet_init PetriNet_init] g e l i
  show ?thesis by (simp add: list_all_iff)
qed


subsection \<open>Loading\<close>

lemma parse_places_keys:
  "parse_places ns es pls = Inr pls' \<Longrightarrow> distinct (map fst pls) \<Longrightarrow> distinct (map fst pls')"
proof (induction es arbitrary: pls)
  case Nil
  then show ?case by simp
next
  case (Cons e es)
  from Cons.prems(1) obtain m where m: "initial_marking ns e = Inr m"
    and r: "parse_places ns es
              (AList.update (get e ''id'') \<lparr>place_id = get e ''id'', token = m\<rparr> pls) = Inr pls'"
    by (simp split: sum.splits)
  show ?case using Cons.IH[OF r] Cons.prems(2) by (simp add: distinct_update)
qed

lemma parse_transitions_keys:
  "distinct (map fst trs) \<Longrightarrow> distinct (map fst (parse_transitions es trs))"
  by (induction es arbitrary: trs) (simp_all add: distinct_update)

lemma load_Inr:
  assumes "load_from_pnml net (Some root) = Inr (b, net')"
  shows "b" and "\<exists>pls. parse_places (get_ns root) (find_all (get_ns root) root ''place'') (places net)
                 = Inr pls \<and>
               build_relationships
                 (net\<lparr>places := pls,
                      transitions := parse_transitions
                        (find_all (get_ns root) root ''transition'') (transitions net),
                      arcs := arcs net @ map parse_arc (find_all (get_ns root) root ''arc'')\<rparr>)
                 = Inr net'"
  using assms by (auto simp: load_from_pnml_def Let_def split: sum.splits)

lemma load_build:
  assumes "load_from_pnml net (Some root) = Inr (b, net')"
  obtains mid where "build_relationships mid = Inr net'"
    and "dict_ok net \<Longrightarrow> dict_ok mid"
    and "arcs mid = arcs net @ map parse_arc (find_all (get_ns root) root ''arc'')"
    and "transitions mid =
           parse_transitions (find_all (get_ns root) root ''transition'') (transitions net)"
    and "parse_places (get_ns root) (find_all (get_ns root) root ''place'') (places net)
           = Inr (places mid)"
proof -
  from load_Inr(2)[OF assms] obtain pls
    where p: "parse_places (get_ns root) (find_all (get_ns root) root ''place'') (places net)
                 = Inr pls"
      and b: "build_relationships
                 (net\<lparr>places := pls,
                      transitions := parse_transitions
                        (find_all (get_ns root) root ''transition'') (transitions net),
                      arcs := arcs net @ map parse_arc (find_all (get_ns root) root ''arc'')\<rparr>)
                 = Inr net'"
    by blast
  show thesis
  proof (rule that[OF b])
    assume "dict_ok net"
    then show "dict_ok (net\<lparr>places := pls,
                      transitions := parse_transitions
                        (find_all (get_ns root) root ''transition'') (transitions net),
                      arcs := arcs net @ map parse_arc (find_all (get_ns root) root ''arc'')\<rparr>)"
      using parse_places_keys[OF p] by (simp add: dict_ok_def parse_transitions_keys)
  qed (simp_all add: p)
qed

lemma build_ids:
  assumes "build_relationships mid = Inr net'" "dict_ok mid"
  shows "length (place_ids net') = length (places net') \<and>
         set (place_ids net') = fst ` set (places net') \<and>
         sorted_wrt (<) (place_ids net') \<and> distinct (place_ids net') \<and>
         length (transition_ids net') = length (transitions net') \<and>
         set (transition_ids net') = fst ` set (transitions net') \<and>
         sorted_wrt (<) (transition_ids net') \<and> distinct (transition_ids net')"
proof -
  note b = build_Inr[OF assms(1)]
  have dp: "distinct (map fst (places mid))" and dt: "distinct (map fst (transitions mid))"
    using assms(2) by (simp_all add: dict_ok_def)
  have kt: "map fst (transitions net') = map fst (transitions mid)"
    by (rule build_keys[OF assms(1)])
  have lt: "length (transitions net') = length (transitions mid)"
    using arg_cong[OF kt, of length] by simp
  have st: "fst ` set (transitions net') = fst ` set (transitions mid)"
    using arg_cong[OF kt, of set] by simp
  show ?thesis
    using sorted_py_props[OF b(1)] sorted_py_props[OF b(2)] dp dt b(4) lt st
    by simp
qed


subsection \<open>The identifier lists\<close>

text \<open>
  C7. After a load that returns, into an object whose dictionaries have no key twice,
  \<^verbatim>\<open>place_ids\<close> has as many elements as \<^verbatim>\<open>places\<close>, is strictly increasing in the
  lexicographic order of the identifiers and has no duplicates; the same holds of
  \<^verbatim>\<open>transition_ids\<close> and \<^verbatim>\<open>transitions\<close>.
\<close>

theorem ids_sorted:
  assumes "dict_ok net" "load_from_pnml net (Some root) = Inr (b, net')"
  shows "length (place_ids net') = length (places net') \<and>
         sorted_wrt (<) (place_ids net') \<and> distinct (place_ids net') \<and>
         length (transition_ids net') = length (transitions net') \<and>
         sorted_wrt (<) (transition_ids net') \<and> distinct (transition_ids net')"
proof -
  from load_build[OF assms(2)] obtain mid
    where "build_relationships mid = Inr net'" "dict_ok net \<Longrightarrow> dict_ok mid"
    by blast
  with assms(1) show ?thesis using build_ids[of mid net'] by simp
qed

theorem ids_sorted_witness:
  "dict_ok PetriNet_init \<and>
   load_from_pnml PetriNet_init (Some doc_loop) = Inr (True, net_loop) \<and>
   length (place_ids net_loop) = length (places net_loop) \<and>
   sorted_wrt (<) (place_ids net_loop) \<and> distinct (place_ids net_loop) \<and>
   place_ids net_loop = [Some ''p1'', Some ''p2'', Some ''p3''] \<and>
   map fst (places net_loop) = [Some ''p2'', Some ''p1'', Some ''p3''] \<and>
   length (transition_ids net_loop) = length (transitions net_loop) \<and>
   sorted_wrt (<) (transition_ids net_loop) \<and> distinct (transition_ids net_loop)"
proof -
  have d: "dict_ok PetriNet_init" by (simp add: dict_ok_def PetriNet_init_def)
  have l: "load_from_pnml PetriNet_init (Some doc_loop) = Inr (True, net_loop)"
    by (rule load_loop)
  have e: "place_ids net_loop = [Some ''p1'', Some ''p2'', Some ''p3'']"
    "map fst (places net_loop) = [Some ''p2'', Some ''p1'', Some ''p3'']"
    by (simp_all add: net_loop_def)
  from ids_sorted[OF d l] d l e show ?thesis by simp
qed

subsection \<open>Column sums\<close>

text \<open>
  C9. After a load that returns, the entries of the column of a transition add up to the
  length of its postset minus the length of its preset.
\<close>

theorem column_sum:
  assumes "load_from_pnml net (Some root) = Inr (b, net')"
    and "j < length (transition_ids net')"
    and "map_of (transitions net') (transition_ids net' ! j) = Some tr"
  shows "(\<Sum>row\<leftarrow>incidence_matrix net'. row ! j)
         = int (length (postset tr)) - int (length (preset tr))"
proof -
  from load_build[OF assms(1)] obtain mid where "build_relationships mid = Inr net'"
    by blast
  note f = build_Inr(6)[OF this]
  have "(\<Sum>row\<leftarrow>replicate (length (place_ids net'))
            (replicate (length (transition_ids net')) (0::int)). row ! j) = 0"
    using assms(2) by (simp add: sum_list_replicate)
  with fill_matrix_colsum[OF f, of j] assms(2,3) show ?thesis by simp
qed

theorem column_sum_witness:
  "load_from_pnml PetriNet_init (Some doc_loop) = Inr (True, net_loop) \<and>
   (0::nat) < length (transition_ids net_loop) \<and>
   map_of (transitions net_loop) (transition_ids net_loop ! 0)
     = Some \<lparr>trans_id = Some ''t1'', preset = [Some ''p1''],
             postset = [Some ''p1'', Some ''p2'']\<rparr> \<and>
   (\<Sum>row\<leftarrow>incidence_matrix net_loop. row ! 0) = 1"
proof -
  have l: "load_from_pnml PetriNet_init (Some doc_loop) = Inr (True, net_loop)"
    by (rule load_loop)
  have j: "(0::nat) < length (transition_ids net_loop)" by (simp add: net_loop_def)
  have t: "map_of (transitions net_loop) (transition_ids net_loop ! 0)
     = Some \<lparr>trans_id = Some ''t1'', preset = [Some ''p1''],
             postset = [Some ''p1'', Some ''p2'']\<rparr>"
    by (simp add: net_loop_def)
  from column_sum[OF l j t] l j t show ?thesis by simp
qed

subsection \<open>Entries of the incidence matrix\<close>

text \<open>
  C1. After a load that returns, the entry in the row of place \<open>p\<close> and the column of
  transition \<open>t\<close> is the number of occurrences of \<open>p\<close> in the postset of \<open>t\<close> minus the
  number of its occurrences in the preset of \<open>t\<close>. In the example the arcs
  \<^verbatim>\<open>p1->t1\<close> and \<^verbatim>\<open>t1->p1\<close> give the entry 0.
\<close>

theorem matrix_entry:
  assumes "dict_ok net" "load_from_pnml net (Some root) = Inr (b, net')"
    and "i < length (place_ids net')" "j < length (transition_ids net')"
    and "map_of (transitions net') (transition_ids net' ! j) = Some tr"
  shows "incidence_matrix net' ! i ! j
         = int (count_list (postset tr) (place_ids net' ! i))
           - int (count_list (preset tr) (place_ids net' ! i))"
proof -
  from load_build[OF assms(2)] obtain mid
    where b: "build_relationships mid = Inr net'" and "dict_ok net \<Longrightarrow> dict_ok mid"
    by blast
  with assms(1) have "dict_ok mid" by simp
  from build_ids[OF b this] have d: "distinct (place_ids net')" by simp
  note f = build_Inr(6)[OF b]
  have z: "replicate (length (place_ids net')) (replicate (length (transition_ids net')) (0::int))
             ! i ! j = 0"
    using assms(3,4) by simp
  from fill_matrix_nth[OF f d shape_replicate assms(3,4)] z assms(4,5)
  show ?thesis by (simp add: column_delta_def)
qed

theorem matrix_entry_witness:
  "dict_ok PetriNet_init \<and>
   load_from_pnml PetriNet_init (Some doc_loop) = Inr (True, net_loop) \<and>
   (0::nat) < length (place_ids net_loop) \<and> (0::nat) < length (transition_ids net_loop) \<and>
   place_ids net_loop ! 0 = Some ''p1'' \<and>
   map_of (transitions net_loop) (transition_ids net_loop ! 0)
     = Some \<lparr>trans_id = Some ''t1'', preset = [Some ''p1''],
             postset = [Some ''p1'', Some ''p2'']\<rparr> \<and>
   incidence_matrix net_loop ! 0 ! 0 = 0"
proof -
  have d: "dict_ok PetriNet_init" by (simp add: dict_ok_def PetriNet_init_def)
  have l: "load_from_pnml PetriNet_init (Some doc_loop) = Inr (True, net_loop)"
    by (rule load_loop)
  have i: "(0::nat) < length (place_ids net_loop)" by (simp add: net_loop_def)
  have j: "(0::nat) < length (transition_ids net_loop)" by (simp add: net_loop_def)
  have p: "place_ids net_loop ! 0 = Some ''p1''" by (simp add: net_loop_def)
  have t: "map_of (transitions net_loop) (transition_ids net_loop ! 0)
     = Some \<lparr>trans_id = Some ''t1'', preset = [Some ''p1''],
             postset = [Some ''p1'', Some ''p2'']\<rparr>"
    by (simp add: net_loop_def)
  from matrix_entry[OF d l i j t] d l i j p t show ?thesis by simp
qed


lemma image_fst_map: "fst ` set xs = set (map fst xs)"
  by simp

lemma reset_flow_idem: "reset_flow (reset_flow trs) = reset_flow trs"
  by (induction trs) (auto simp: reset_flow_def)

subsection \<open>The row lookup never fails\<close>

lemma build_returns:
  assumes "sorted_py (map fst (places net)) = Inr pids"
    and "sorted_py (map fst (transitions net)) = Inr tids"
  shows "\<exists>net'. build_relationships net = Inr net'"
proof -
  let ?T = "fill_flow (places net) (arcs net) (reset_flow (transitions net))"
  let ?pre = "net\<lparr>place_ids := pids, transition_ids := tids, transitions := ?T\<rparr>"
  have sp: "set pids = fst ` set (places net)"
    using sorted_py_props(1)[OF assms(1)] by simp
  have st: "set tids = fst ` set ?T"
    using sorted_py_props(1)[OF assms(2)]
    by (simp only: image_fst_map map_fst_fill_flow map_fst_reset_flow)
  have fl: "flow_in (set pids) ?T"
    unfolding sp by (rule flow_in_fill_flow[OF flow_in_reset])
  then have fl': "\<forall>(k, tr) \<in> set ?T. set (preset tr) \<subseteq> set pids \<and> set (postset tr) \<subseteq> set pids"
    by (simp add: flow_in_def)
  have sub: "set tids \<subseteq> fst ` set ?T" using st by simp
  from fill_matrix_ok[OF sub fl' shape_replicate, of 0 "length tids"]
  obtain m where m: "fill_matrix ?T pids 0 tids
                       (replicate (length pids) (replicate (length tids) 0)) = Inr m"
    by auto
  have g: "generate_incidence_matrix ?pre = Inr (?pre\<lparr>incidence_matrix := m\<rparr>)"
    by (simp add: generate_incidence_matrix_def m)
  have "build_relationships net = Inr (?pre\<lparr>incidence_matrix := m\<rparr>)"
    by (simp add: build_relationships_def assms g)
  then show ?thesis ..
qed

lemma build_flow:
  assumes "build_relationships net = Inr net'"
  shows "flow_in (fst ` set (places net')) (transitions net')"
  unfolding build_Inr(3,4)[OF assms] by (rule flow_in_fill_flow[OF flow_in_reset])

text \<open>
  C10. When sorting the two key lists does not raise, \<^verbatim>\<open>_build_relationships\<close> returns, and
  in the net it returns every identifier of every preset and postset is a key of
  \<^verbatim>\<open>places\<close> and an element of \<^verbatim>\<open>place_ids\<close>, so that \<^verbatim>\<open>place_ids.index\<close> finds it: the
  matrix builder does not fail on what the relationship builder hands to it.
\<close>

theorem lookup_succeeds:
  assumes "sorted_py (map fst (places net)) = Inr pids"
    and "sorted_py (map fst (transitions net)) = Inr tids"
  shows "\<exists>net'. build_relationships net = Inr net' \<and>
           (\<forall>(k, tr) \<in> set (transitions net').
              \<forall>p \<in> set (preset tr) \<union> set (postset tr).
                p \<in> fst ` set (places net') \<and> p \<in> set (place_ids net') \<and>
                (\<exists>i. index_py (place_ids net') p = Inr i))"
proof -
  from build_returns[OF assms] obtain net' where b: "build_relationships net = Inr net'" ..
  have keys: "set (place_ids net') = fst ` set (places net')"
    using sorted_py_props(1)[OF build_Inr(1)[OF b]] by (simp add: build_Inr(4)[OF b])
  have "p \<in> fst ` set (places net') \<and> p \<in> set (place_ids net') \<and>
        (\<exists>i. index_py (place_ids net') p = Inr i)"
    if kt: "(k, tr) \<in> set (transitions net')" and p: "p \<in> set (preset tr) \<union> set (postset tr)"
    for k tr p
  proof -
    from build_flow[OF b] kt
    have "set (preset tr) \<subseteq> fst ` set (places net') \<and> set (postset tr) \<subseteq> fst ` set (places net')"
      unfolding flow_in_def by fastforce
    with p have 1: "p \<in> fst ` set (places net')" by blast
    then have 2: "p \<in> set (place_ids net')" by (simp only: keys)
    from index_py_mem[OF 2] 1 2 show ?thesis by blast
  qed
  then have "\<forall>(k, tr) \<in> set (transitions net').
              \<forall>p \<in> set (preset tr) \<union> set (postset tr).
                p \<in> fst ` set (places net') \<and> p \<in> set (place_ids net') \<and>
                (\<exists>i. index_py (place_ids net') p = Inr i)"
    by blast
  with b show ?thesis by blast
qed

theorem lookup_succeeds_witness:
  "sorted_py (map fst (places net_loop)) = Inr [Some ''p1'', Some ''p2'', Some ''p3''] \<and>
   sorted_py (map fst (transitions net_loop)) = Inr [Some ''t1''] \<and>
   (\<exists>net'. build_relationships net_loop = Inr net' \<and>
      list_all (\<lambda>(k, tr). list_all (\<lambda>p. p \<in> set (place_ids net'))
                  (preset tr @ postset tr)) (transitions net'))"
proof -
  have p: "sorted_py (map fst (places net_loop)) = Inr [Some ''p1'', Some ''p2'', Some ''p3'']"
    by code_simp
  have t: "sorted_py (map fst (transitions net_loop)) = Inr [Some ''t1'']"
    by code_simp
  from lookup_succeeds[OF p t] obtain net' where b: "build_relationships net_loop = Inr net'"
    and f: "\<forall>(k, tr) \<in> set (transitions net').
              \<forall>p \<in> set (preset tr) \<union> set (postset tr).
                p \<in> fst ` set (places net') \<and> p \<in> set (place_ids net') \<and>
                (\<exists>i. index_py (place_ids net') p = Inr i)"
    by blast
  from f have "list_all (\<lambda>(k, tr). list_all (\<lambda>p. p \<in> set (place_ids net'))
                  (preset tr @ postset tr)) (transitions net')"
    by (fastforce simp: list_all_iff)
  with b p t show ?thesis by blast
qed

subsection \<open>Building the relationships twice\<close>

lemma fill_flow_input:
  "input_arc (fst ` set pls) (fst ` set trs) a \<Longrightarrow>
     fill_flow pls (a # as) trs
     = fill_flow pls as (AList.map_entry (target a) (\<lambda>t. t\<lparr>preset := preset t @ [source a]\<rparr>) trs)"
  by (simp add: input_arc_def Let_def)

lemma fill_flow_output:
  "output_arc (fst ` set pls) (fst ` set trs) a \<Longrightarrow>
     fill_flow pls (a # as) trs
     = fill_flow pls as (AList.map_entry (source a) (\<lambda>t. t\<lparr>postset := postset t @ [target a]\<rparr>) trs)"
  by (auto simp: output_arc_def input_arc_def Let_def)

lemma fill_flow_skip:
  "\<not> input_arc (fst ` set pls) (fst ` set trs) a \<Longrightarrow> \<not> output_arc (fst ` set pls) (fst ` set trs) a \<Longrightarrow>
     fill_flow pls (a # as) trs = fill_flow pls as trs"
  by (auto simp: output_arc_def input_arc_def Let_def)

lemma output_not_input: "output_arc P T a \<Longrightarrow> \<not> input_arc P T a"
  by (simp add: output_arc_def)

lemma map_of_fill_flow:
  "map_of (fill_flow pls as trs) k =
     map_option
       (\<lambda>t. t\<lparr>preset := preset t @ map source
                  (filter (\<lambda>a. input_arc (fst ` set pls) (fst ` set trs) a \<and> target a = k) as),
              postset := postset t @ map target
                  (filter (\<lambda>a. output_arc (fst ` set pls) (fst ` set trs) a \<and> source a = k) as)\<rparr>)
       (map_of trs k)"
proof (induction as arbitrary: trs)
  case Nil
  show ?case by (cases "map_of trs k") simp_all
next
  case (Cons a as)
  let ?P = "fst ` set pls" and ?T = "fst ` set trs"
  consider (i) "input_arc ?P ?T a" | (o) "output_arc ?P ?T a" | (s) "\<not> input_arc ?P ?T a" "\<not> output_arc ?P ?T a"
    by blast
  then show ?case
  proof cases
    case i
    then have n: "\<not> output_arc ?P ?T a" by (simp add: output_arc_def)
    show ?thesis
      unfolding fill_flow_input[OF i] Cons.IH dom_map_entry
      by (cases "map_of trs k") (auto simp: map_of_map_entry i n)
  next
    case o
    note n = output_not_input[OF o]
    show ?thesis
      unfolding fill_flow_output[OF o] Cons.IH dom_map_entry
      by (cases "map_of trs k") (auto simp: map_of_map_entry o n)
  next
    case s
    show ?thesis
      unfolding fill_flow_skip[OF s] Cons.IH
      by (simp add: s)
  qed
qed

lemma map_of_reset_flow:
  "map_of (reset_flow trs) k = map_option (\<lambda>t. t\<lparr>preset := [], postset := []\<rparr>) (map_of trs k)"
  by (induction trs) (auto simp: reset_flow_def)

lemma fst_set_reset_flow: "fst ` set (reset_flow trs) = fst ` set trs"
  using arg_cong[OF map_fst_reset_flow, of set trs] by simp

lemma build_flow_from_arcs:
  assumes "build_relationships net = Inr net1" "map_of (transitions net1) k = Some tr"
  shows "preset tr = preset_of_arcs net k \<and> postset tr = postset_of_arcs net k"
proof -
  from assms(2) obtain t0 where
    "tr = t0\<lparr>preset := [], postset := []\<rparr>
            \<lparr>preset := preset (t0\<lparr>preset := [], postset := []\<rparr>) @ preset_of_arcs net k,
             postset := postset (t0\<lparr>preset := [], postset := []\<rparr>) @ postset_of_arcs net k\<rparr>"
    unfolding build_Inr(3)[OF assms(1)] map_of_fill_flow map_of_reset_flow fst_set_reset_flow
      preset_of_arcs_def postset_of_arcs_def
    by (cases "map_of (transitions net) k") auto
  then show ?thesis by simp
qed

lemma build_cong:
  assumes "places net0 = places net" "arcs net0 = arcs net"
    "reset_flow (transitions net0) = reset_flow (transitions net)"
  shows "build_relationships net0 = build_relationships net"
proof -
  have k: "map fst (transitions net0) = map fst (transitions net)"
    using arg_cong[OF assms(3), of "map fst"] by (simp add: map_fst_reset_flow)
  have r: "net0\<lparr>place_ids := p, transition_ids := t, transitions := T, incidence_matrix := m\<rparr>
           = net\<lparr>place_ids := p, transition_ids := t, transitions := T, incidence_matrix := m\<rparr>"
    for p t T m
    using assms(1,2) by (cases net0, cases net) simp
  show ?thesis
    unfolding build_relationships_def generate_incidence_matrix_def Let_def
    by (simp add: assms k r cong: sum.case_cong)
qed

text \<open>
  C5. When \<^verbatim>\<open>_build_relationships\<close> has returned, calling it again on the result returns
  the same net: the same presets and postsets for every transition and the same matrix.
  The presets and postsets it leaves are read off the arcs alone, in the order of the arc
  list, and whatever presets, postsets, identifier lists and matrix the object held before
  the call are replaced: two objects with the same places, arcs and transition identifiers
  give the same result.
\<close>

theorem build_twice:
  assumes "build_relationships net = Inr net1"
  shows "build_relationships net1 = Inr net1 \<and>
         (\<forall>k tr. map_of (transitions net1) k = Some tr \<longrightarrow>
            preset tr = preset_of_arcs net k \<and> postset tr = postset_of_arcs net k) \<and>
         (\<forall>net0. places net0 = places net \<and> arcs net0 = arcs net \<and>
                 reset_flow (transitions net0) = reset_flow (transitions net) \<longrightarrow>
            build_relationships net0 = Inr net1)"
proof -
  note b = build_Inr[OF assms]
  have r: "reset_flow (transitions net1) = reset_flow (transitions net)"
    by (simp add: b(3) reset_flow_fill_flow reset_flow_idem)
  from build_cong[OF b(4) b(5) r] assms
  have 1: "build_relationships net1 = Inr net1" by simp
  have 2: "\<forall>k tr. map_of (transitions net1) k = Some tr \<longrightarrow>
            preset tr = preset_of_arcs net k \<and> postset tr = postset_of_arcs net k"
    using build_flow_from_arcs[OF assms] by blast
  have 3: "\<forall>net0. places net0 = places net \<and> arcs net0 = arcs net \<and>
                 reset_flow (transitions net0) = reset_flow (transitions net) \<longrightarrow>
            build_relationships net0 = Inr net1"
  proof (intro allI impI)
    fix net0 :: petri_net
    assume "places net0 = places net \<and> arcs net0 = arcs net \<and>
            reset_flow (transitions net0) = reset_flow (transitions net)"
    then have "build_relationships net0 = build_relationships net"
      by (intro build_cong) simp_all
    with assms show "build_relationships net0 = Inr net1" by simp
  qed
  from 1 2 3 show ?thesis by blast
qed

theorem build_twice_witness:
  "build_relationships net_stale = Inr net_loop \<and>
   build_relationships net_loop = Inr net_loop \<and>
   map_of (transitions net_stale) (Some ''t1'')
     = Some \<lparr>trans_id = Some ''t1'', preset = [Some ''p3'', Some ''p3''], postset = [Some ''p9'']\<rparr> \<and>
   map_of (transitions net_loop) (Some ''t1'')
     = Some \<lparr>trans_id = Some ''t1'', preset = [Some ''p1''],
             postset = [Some ''p1'', Some ''p2'']\<rparr> \<and>
   preset_of_arcs net_stale (Some ''t1'') = [Some ''p1''] \<and>
   postset_of_arcs net_stale (Some ''t1'') = [Some ''p1'', Some ''p2'']"
proof -
  have 1: "build_relationships net_stale = Inr net_loop" by code_simp
  have s: "map_of (transitions net_stale) (Some ''t1'')
     = Some \<lparr>trans_id = Some ''t1'', preset = [Some ''p3'', Some ''p3''], postset = [Some ''p9'']\<rparr>"
    by code_simp
  have t: "map_of (transitions net_loop) (Some ''t1'')
     = Some \<lparr>trans_id = Some ''t1'', preset = [Some ''p1''],
             postset = [Some ''p1'', Some ''p2'']\<rparr>"
    by code_simp
  note T = build_twice[OF 1]
  from T have 2: "build_relationships net_loop = Inr net_loop" by blast
  from T t have "preset \<lparr>trans_id = Some ''t1'', preset = [Some ''p1''],
             postset = [Some ''p1'', Some ''p2'']\<rparr> = preset_of_arcs net_stale (Some ''t1'') \<and>
     postset \<lparr>trans_id = Some ''t1'', preset = [Some ''p1''],
             postset = [Some ''p1'', Some ''p2'']\<rparr> = postset_of_arcs net_stale (Some ''t1'')"
    by blast
  then have 3: "preset_of_arcs net_stale (Some ''t1'') = [Some ''p1'']"
    "postset_of_arcs net_stale (Some ''t1'') = [Some ''p1'', Some ''p2'']"
    by simp_all
  from 1 2 s t 3 show ?thesis by blast
qed


subsection \<open>The consistency check\<close>

lemma check_arcs_eq:
  "check_arcs all_nodes as errors = errors @ concat (map (arc_defects all_nodes) as)"
  by (induction as arbitrary: errors) (simp_all add: Let_def arc_defects_def)

lemma consistency_errors_eq:
  "consistency_errors net = global_defects net @ concat (map (arc_defects (node_ids net)) (arcs net))"
  by (simp add: consistency_errors_def Let_def check_arcs_eq global_defects_def node_ids_def)

lemma arc_defects_Nil: "arc_defects N a = [] \<longleftrightarrow> source a \<in> N \<and> target a \<in> N"
  by (simp add: arc_defects_def)

text \<open>
  C4. \<^verbatim>\<open>check_consistency\<close> returns \<^verbatim>\<open>True\<close> exactly when the net has a place, has a
  transition, and the source and the target of every arc are among the place and
  transition identifiers. The defects it collects are those of the global checks followed
  by those of the arcs in the order of the arc list, one for each unknown end point, and
  when it returns \<^verbatim>\<open>False\<close> it has printed one line for each of them, in that order.
\<close>

theorem consistency_check:
  "(snd (check_consistency net) \<longleftrightarrow>
      places net \<noteq> [] \<and> transitions net \<noteq> [] \<and>
      (\<forall>a \<in> set (arcs net). source a \<in> node_ids net \<and> target a \<in> node_ids net)) \<and>
   consistency_errors net
     = global_defects net @ concat (map (arc_defects (node_ids net)) (arcs net)) \<and>
   fst (check_consistency net)
     = (if snd (check_consistency net) then [Header, Passed]
        else Header # Failed # map Item (consistency_errors net))"
proof -
  have "consistency_errors net = [] \<longleftrightarrow>
      places net \<noteq> [] \<and> transitions net \<noteq> [] \<and>
      (\<forall>a \<in> set (arcs net). source a \<in> node_ids net \<and> target a \<in> node_ids net)"
    by (simp add: consistency_errors_eq global_defects_def arc_defects_Nil)
  then show ?thesis
    using consistency_errors_eq[of net] by (simp add: check_consistency_def Let_def)
qed

theorem consistency_check_witness:
  "places (net_loop\<lparr>arcs := butlast (arcs net_loop)\<rparr>) \<noteq> [] \<and>
   transitions (net_loop\<lparr>arcs := butlast (arcs net_loop)\<rparr>) \<noteq> [] \<and>
   list_all (\<lambda>a. source a \<in> node_ids net_loop \<and> target a \<in> node_ids net_loop)
     (butlast (arcs net_loop)) \<and>
   snd (check_consistency (net_loop\<lparr>arcs := butlast (arcs net_loop)\<rparr>)) \<and>
   consistency_errors net_loop = [MissingSource (Some ''a4'') (Some ''p9'')] \<and>
   consistency_errors PetriNet_init = [NoPlaces, NoTransitions]"
proof -
  let ?N = "net_loop\<lparr>arcs := butlast (arcs net_loop)\<rparr>"
  have h: "places ?N \<noteq> [] \<and> transitions ?N \<noteq> [] \<and>
      (\<forall>a \<in> set (arcs ?N). source a \<in> node_ids ?N \<and> target a \<in> node_ids ?N)"
    by code_simp
  have l: "list_all (\<lambda>a. source a \<in> node_ids net_loop \<and> target a \<in> node_ids net_loop)
     (butlast (arcs net_loop))"
    by code_simp
  have e1: "global_defects net_loop
              @ concat (map (arc_defects (node_ids net_loop)) (arcs net_loop))
            = [MissingSource (Some ''a4'') (Some ''p9'')]"
    by code_simp
  have e2: "global_defects PetriNet_init
              @ concat (map (arc_defects (node_ids PetriNet_init)) (arcs PetriNet_init))
            = [NoPlaces, NoTransitions]"
    by code_simp
  from consistency_check[of ?N] h have 1: "snd (check_consistency ?N)" by blast
  from consistency_check[of net_loop] e1
  have 2: "consistency_errors net_loop = [MissingSource (Some ''a4'') (Some ''p9'')]" by simp
  from consistency_check[of PetriNet_init] e2
  have 3: "consistency_errors PetriNet_init = [NoPlaces, NoTransitions]" by simp
  from h l 1 2 3 show ?thesis by blast
qed


subsection \<open>Documents in a namespace\<close>

lemma iter_el_unfold: "iter_el e = e # concat (map iter_el (children e))"
  by (cases e) simp

lemma iter_el_self: "e \<in> set (iter_el e)"
  by (subst iter_el_unfold) simp

lemma iter_el_trans: "e \<in> set (iter_el r) \<Longrightarrow> set (iter_el e) \<subseteq> set (iter_el r)"
proof (induction r rule: element.induct)
  case (Element t a x cs)
  from Element.prems
  consider "e = Element t a x cs" | c where "c \<in> set cs" "e \<in> set (iter_el c)"
    by auto
  then show ?case
  proof cases
    case 1
    then show ?thesis by simp
  next
    case 2
    from Element.IH[OF 2] have "set (iter_el e) \<subseteq> set (iter_el c)" .
    with 2(1) show ?thesis by auto
  qed
qed

lemma iter_el_child:
  assumes "e \<in> set (iter_el r)" "c \<in> set (children e)"
  shows "c \<in> set (iter_el r)"
proof -
  have "c \<in> set (iter_el e)"
    using assms(2) iter_el_self[of c] by (subst iter_el_unfold[of e]) auto
  with iter_el_trans[OF assms(1)] show ?thesis by blast
qed

lemma local_qualified: "CHR ''}'' \<notin> set u \<Longrightarrow> local_name (qualified_name u l) = l"
proof -
  assume u: "CHR ''}'' \<notin> set u"
  then have "dropWhile (\<lambda>c. c \<noteq> CHR ''}'') (u @ CHR ''}'' # l) = CHR ''}'' # l"
    by (auto simp: dropWhile_append3)
  then show ?thesis by (simp add: local_name_def qualified_name_def)
qed

lemma not_wildcard_qualified:
  assumes "u \<noteq> []" "u \<noteq> ''*''" "CHR ''}'' \<notin> set u" "name \<noteq> []" "last name \<noteq> CHR ''*''"
  shows "\<not> is_wildcard_tag (qualified_name u name)"
proof -
  let ?t = "qualified_name u name"
  have a: "take 3 ?t \<noteq> ''{*}''"
  proof
    assume h: "take 3 ?t = ''{*}''"
    from assms(1) obtain c u' where u: "u = c # u'" by (cases u) auto
    from h u have c: "c = CHR ''*''" and r: "take 1 (u' @ CHR ''}'' # name) = ''}''"
      by (simp_all add: qualified_name_def)
    from r assms(3) u have "u' = []" by (cases u') auto
    with u c assms(2) show False by simp
  qed
  have b: "drop (length ?t - 2) ?t \<noteq> ''}*''"
  proof
    assume h: "drop (length ?t - 2) ?t = ''}*''"
    have ne: "?t \<noteq> []" by (simp add: qualified_name_def)
    have "length ?t - 2 < length ?t" using ne by (simp add: qualified_name_def)
    then have "last (drop (length ?t - 2) ?t) = last ?t" by (rule last_drop)
    also have "last ?t = last name" using assms(4) by (simp add: qualified_name_def)
    finally show False using h assms(5) by simp
  qed
  from a b show ?thesis by (simp add: is_wildcard_tag_def)
qed

lemma select_qualified:
  assumes "u \<noteq> []" "u \<noteq> ''*''" "CHR ''}'' \<notin> set u" "name \<noteq> []" "last name \<noteq> CHR ''*''"
  shows "select_tag (qualified_name u name) (qualified_name u l) \<longleftrightarrow> l = name"
proof -
  have "take 2 (qualified_name u name) \<noteq> ''{}''"
    using assms(1,3) by (cases u) (auto simp: qualified_name_def)
  with not_wildcard_qualified[OF assms] show ?thesis
    by (simp add: select_tag_def) (simp add: qualified_name_def)
qed

lemma get_ns_namespaced:
  assumes "namespaced u root"
  shows "get_ns root = Some u"
proof -
  from assms have u: "u \<noteq> []" "CHR ''{'' \<notin> set u" "CHR ''}'' \<notin> set u"
    and t: "el_tag root = qualified_name u (local_name (el_tag root))"
    using iter_el_self[of root] by (auto simp: namespaced_def)
  have 1: "takeWhile (\<lambda>c. c \<noteq> CHR ''}'') (qualified_name u l) = CHR ''{'' # u" for l
    using u(3) by (auto simp: qualified_name_def takeWhile_tail)
  have 2: "dropWhile (\<lambda>c. c = CHR ''{'') (CHR ''{'' # u) = u"
    using u(1,2) by (cases u) auto
  have 3: "dropWhile (\<lambda>c. c = CHR ''{'') (rev u) = rev u"
    using u(1,2) by (cases "rev u") auto
  have "strip_brace (CHR ''{'' # u) = u"
    unfolding strip_brace_def 2 3 by simp
  then show ?thesis
    by (subst get_ns_def, subst t) (simp add: 1)
qed

lemma select_namespaced:
  assumes "namespaced u root" "e \<in> set (iter_el root)" "name \<noteq> []" "last name \<noteq> CHR ''*''"
  shows "select_tag (qualified_name u name) (el_tag e) \<longleftrightarrow> local_name (el_tag e) = name"
proof -
  from assms(1,2) have t: "el_tag e = qualified_name u (local_name (el_tag e))"
    and u: "u \<noteq> []" "u \<noteq> ''*''" "CHR ''}'' \<notin> set u"
    by (auto simp: namespaced_def)
  show ?thesis
    by (subst t) (rule select_qualified[OF u assms(3,4)])
qed

lemma find_all_namespaced:
  assumes "namespaced u root" "name \<noteq> []" "last name \<noteq> CHR ''*''"
  shows "find_all (get_ns root) root name = elements root name"
proof -
  have "set (concat (map iter_el (children root))) \<subseteq> set (iter_el root)"
    by (subst iter_el_unfold[of root]) auto
  then have "filter (\<lambda>e. select_tag (qualified_name u name) (el_tag e))
               (concat (map iter_el (children root)))
           = filter (\<lambda>e. local_name (el_tag e) = name) (concat (map iter_el (children root)))"
    by (intro filter_cong refl select_namespaced[OF assms(1) _ assms(2,3)]) blast
  then show ?thesis
    by (simp add: get_ns_namespaced[OF assms(1)] find_all_def findall_descendant_def elements_def)
qed

lemma find_in_namespaced:
  assumes "namespaced u root" "e \<in> set (iter_el root)" "name \<noteq> []" "last name \<noteq> CHR ''*''"
  shows "find_in (Some u) e name = doc_child e name"
proof -
  have "find (\<lambda>c. select_tag (qualified_name u name) (el_tag c)) (children e)
        = find (\<lambda>c. local_name (el_tag c) = name) (children e)"
    by (intro find_cong refl select_namespaced[OF assms(1) _ assms(3,4)])
       (rule iter_el_child[OF assms(2)])
  then show ?thesis by (simp add: find_in_def find_child_def doc_child_def)
qed

lemma elements_iter: "e \<in> set (elements root name) \<Longrightarrow> e \<in> set (iter_el root)"
  by (subst iter_el_unfold[of root]) (auto simp: elements_def)


lemma py_int_error: "py_int s = Inl e \<Longrightarrow> e = ValueError"
  by (simp add: py_int_def Let_def split: if_splits)

lemma doc_child_mem: "doc_child e name = Some c \<Longrightarrow> c \<in> set (children e)"
  by (auto simp: doc_child_def find_Some_iff)

lemma initial_marking_namespaced:
  assumes "namespaced u root" "pl \<in> set (iter_el root)"
  shows "initial_marking (Some u) pl =
           (case doc_marking pl of
              None \<Rightarrow> Inr 0
            | Some s \<Rightarrow> if s = [] then Inr 0 else py_int s)"
proof -
  have 1: "find_in (Some u) pl ''initialMarking'' = doc_child pl ''initialMarking''"
    by (rule find_in_namespaced[OF assms]) simp_all
  show ?thesis
  proof (cases "doc_child pl ''initialMarking''")
    case None
    then show ?thesis by (simp add: initial_marking_def 1 doc_marking_def)
  next
    case (Some mt)
    from doc_child_mem[OF Some] have "mt \<in> set (iter_el root)"
      by (rule iter_el_child[OF assms(2)])
    then have 2: "find_in (Some u) mt ''text'' = doc_child mt ''text''"
      by (intro find_in_namespaced[OF assms(1)]) simp_all
    show ?thesis
      by (simp add: initial_marking_def 1 2 Some doc_marking_def split: option.splits)
  qed
qed

lemma initial_marking_good:
  assumes "namespaced u root" "pl \<in> set (iter_el root)" "\<not> bad_marking pl"
  shows "initial_marking (Some u) pl = Inr (marking_value pl)"
  using assms(3)
  by (auto simp: initial_marking_namespaced[OF assms(1,2)] bad_marking_def marking_value_def
      split: option.splits sum.splits)

lemma initial_marking_bad:
  assumes "namespaced u root" "pl \<in> set (iter_el root)" "bad_marking pl"
  shows "initial_marking (Some u) pl = Inl ValueError"
proof -
  from assms(3) obtain s where s: "doc_marking pl = Some s" "s \<noteq> []" "isl (py_int s)"
    by (auto simp: bad_marking_def split: option.splits)
  from s(3) obtain e where "py_int s = Inl e" by (cases "py_int s") auto
  with py_int_error[OF this] have "py_int s = Inl ValueError" by simp
  with s show ?thesis by (simp add: initial_marking_namespaced[OF assms(1,2)])
qed

lemma initial_marking_cases:
  assumes "namespaced u root" "pl \<in> set (iter_el root)"
  shows "initial_marking (Some u) pl
         = (if bad_marking pl then Inl ValueError else Inr (marking_value pl))"
  using initial_marking_good[OF assms] initial_marking_bad[OF assms] by simp

lemma parse_places_good:
  assumes "\<forall>e \<in> set es. initial_marking ns e = Inr (val e)"
  shows "\<exists>pls'. parse_places ns es pls = Inr pls' \<and>
           map_of pls' = map_of pls ++ map_of (rev (map
             (\<lambda>e. (get e ''id'', \<lparr>place_id = get e ''id'', token = val e\<rparr>)) es))"
  using assms
proof (induction es arbitrary: pls)
  case Nil
  show ?case by simp
next
  case (Cons e es)
  let ?v = "\<lparr>place_id = get e ''id'', token = val e\<rparr>"
  let ?f = "\<lambda>e. (get e ''id'', \<lparr>place_id = get e ''id'', token = val e\<rparr>)"
  from Cons.prems have m: "initial_marking ns e = Inr (val e)"
    and r: "\<forall>e \<in> set es. initial_marking ns e = Inr (val e)" by simp_all
  from Cons.IH[OF r, of "AList.update (get e ''id'') ?v pls"]
  obtain pls' where p: "parse_places ns es (AList.update (get e ''id'') ?v pls) = Inr pls'"
    and mp: "map_of pls' = map_of (AList.update (get e ''id'') ?v pls) ++ map_of (rev (map ?f es))"
    by blast
  have 1: "parse_places ns (e # es) pls = Inr pls'" by (simp add: m p)
  have "map_of pls' = (map_of pls)(get e ''id'' \<mapsto> ?v) ++ map_of (rev (map ?f es))"
    using mp by (simp only: update_conv')
  also have "\<dots> = map_of pls ++ map_of (rev (map ?f (e # es)))"
    by (rule ext) (simp add: map_add_def split: option.splits)
  finally show ?case using 1 by blast
qed

lemma parse_places_bad:
  assumes "\<forall>e \<in> set es. initial_marking ns e = Inl ValueError \<or> (\<exists>v. initial_marking ns e = Inr v)"
    and "\<exists>e \<in> set es. initial_marking ns e = Inl ValueError"
  shows "parse_places ns es pls = Inl ValueError"
  using assms
proof (induction es arbitrary: pls)
  case Nil
  then show ?case by simp
next
  case (Cons e es)
  show ?case
  proof (cases "initial_marking ns e")
    case (Inl err)
    with Cons.prems(1) have "err = ValueError" by auto
    with Inl show ?thesis by simp
  next
    case (Inr v)
    with Cons.prems(2) have 2: "\<exists>e \<in> set es. initial_marking ns e = Inl ValueError" by auto
    from Cons.prems(1) have 1: "\<forall>e \<in> set es. initial_marking ns e = Inl ValueError
        \<or> (\<exists>v. initial_marking ns e = Inr v)" by simp
    from Cons.IH[OF 1 2] Inr show ?thesis by simp
  qed
qed

lemma sorted_py_no_None: "None \<notin> set ks \<Longrightarrow> sorted_py ks = Inr (sort ks)"
  by (simp add: sorted_py_def)


subsection \<open>Loading into an object that holds a net\<close>

lemma parse_places_dom:
  "parse_places ns es pls = Inr pls' \<Longrightarrow>
     fst ` set pls' = fst ` set pls \<union> (\<lambda>e. get e ''id'') ` set es"
proof (induction es arbitrary: pls)
  case Nil
  then show ?case by simp
next
  case (Cons e es)
  from Cons.prems obtain m where m: "initial_marking ns e = Inr m"
    and r: "parse_places ns es
              (AList.update (get e ''id'') \<lparr>place_id = get e ''id'', token = m\<rparr> pls) = Inr pls'"
    by (simp split: sum.splits)
  show ?case using Cons.IH[OF r] by (auto simp: dom_update)
qed

lemma parse_transitions_dom:
  "fst ` set (parse_transitions es trs) = fst ` set trs \<union> (\<lambda>e. get e ''id'') ` set es"
proof (induction es arbitrary: trs)
  case Nil
  show ?case by simp
next
  case (Cons e es)
  show ?case by (auto simp: Cons.IH dom_update)
qed

lemma load_one_fresh: "load_from_pnml PetriNet_init (Some doc_one) = Inr (True, net_one)"
  by code_simp

lemma load_one_after: "load_from_pnml net_loop (Some doc_one) = Inr (True, net_both)"
  by code_simp

lemma load_namespaced:
  assumes "namespaced u root"
  shows "load_from_pnml net (Some root) =
     (case parse_places (Some u) (elements root ''place'') (places net) of
        Inl e \<Rightarrow> Inl e
      | Inr pls \<Rightarrow>
          (case build_relationships
                  (net\<lparr>places := pls,
                       transitions := parse_transitions (elements root ''transition'') (transitions net),
                       arcs := arcs net @ map parse_arc (elements root ''arc'')\<rparr>) of
             Inl e \<Rightarrow> Inl e
           | Inr net' \<Rightarrow> Inr (True, net')))"
proof -
  note g = get_ns_namespaced[OF assms]
  have 1: "find_all (get_ns root) root ''place'' = elements root ''place''"
    "find_all (get_ns root) root ''transition'' = elements root ''transition''"
    "find_all (get_ns root) root ''arc'' = elements root ''arc''"
    by (rule find_all_namespaced[OF assms]; simp)+
  show ?thesis
    by (simp add: load_from_pnml_def Let_def 1 cong: sum.case_cong) (simp add: g)
qed

lemma places_good:
  assumes "namespaced u root" "\<forall>pl \<in> set (elements root ''place''). \<not> bad_marking pl"
  shows "\<exists>pls'. parse_places (Some u) (elements root ''place'') pls = Inr pls' \<and>
           map_of pls' = map_of pls ++ map_of (rev (map doc_place (elements root ''place'')))"
proof -
  have "\<forall>e \<in> set (elements root ''place''). initial_marking (Some u) e = Inr (marking_value e)"
    using assms(2) initial_marking_good[OF assms(1) elements_iter] by blast
  from parse_places_good[OF this, of pls] show ?thesis
    by (simp add: doc_place_def[abs_def])
qed

lemma places_bad:
  assumes "namespaced u root" "\<exists>pl \<in> set (elements root ''place''). bad_marking pl"
  shows "parse_places (Some u) (elements root ''place'') pls = Inl ValueError"
proof (rule parse_places_bad)
  show "\<forall>e \<in> set (elements root ''place'').
          initial_marking (Some u) e = Inl ValueError \<or> (\<exists>v. initial_marking (Some u) e = Inr v)"
    using initial_marking_cases[OF assms(1) elements_iter] by auto
  show "\<exists>e \<in> set (elements root ''place''). initial_marking (Some u) e = Inl ValueError"
    using assms(2) initial_marking_bad[OF assms(1) elements_iter] by blast
qed

lemma load_returned_good:
  assumes "namespaced u root" "load_from_pnml net (Some root) = Inr (b, net')"
  shows "\<forall>pl \<in> set (elements root ''place''). \<not> bad_marking pl"
proof (rule ccontr)
  assume "\<not> (\<forall>pl \<in> set (elements root ''place''). \<not> bad_marking pl)"
  then have "\<exists>pl \<in> set (elements root ''place''). bad_marking pl" by blast
  from places_bad[OF assms(1) this, of "places net"] assms(2) show False
    by (simp add: load_namespaced[OF assms(1)])
qed

text \<open>
  C2, as amended. For a document all of whose elements lie in one namespace, a load that
  returns keeps what the object held: the arcs of the document are appended to the arcs
  already stored; the places afterwards are those stored before, overridden by the places
  of the document (a later element replacing an earlier one of the same identifier); and
  the place and transition identifiers afterwards are those stored before together with
  those of the document. For a new object this leaves exactly the places, transitions and
  arcs of the document.
\<close>

theorem load_adds:
  assumes "namespaced u root" "load_from_pnml net (Some root) = Inr (b, net')"
  shows "arcs net' = arcs net @ map parse_arc (elements root ''arc'') \<and>
         map_of (places net')
           = map_of (places net) ++ map_of (rev (map doc_place (elements root ''place''))) \<and>
         fst ` set (places net') = fst ` set (places net) \<union> doc_place_ids root \<and>
         fst ` set (transitions net') = fst ` set (transitions net) \<union> doc_transition_ids root"
proof -
  note good = load_returned_good[OF assms]
  from places_good[OF assms(1) good, of "places net"] obtain pls'
    where p: "parse_places (Some u) (elements root ''place'') (places net) = Inr pls'"
      and m: "map_of pls' = map_of (places net)
                ++ map_of (rev (map doc_place (elements root ''place'')))"
    by blast
  let ?mid = "net\<lparr>places := pls',
                  transitions := parse_transitions (elements root ''transition'') (transitions net),
                  arcs := arcs net @ map parse_arc (elements root ''arc'')\<rparr>"
  from assms(2) have bu: "build_relationships ?mid = Inr net'"
    by (auto simp: load_namespaced[OF assms(1)] p split: sum.splits)
  note bi = build_Inr[OF bu]
  have kt: "fst ` set (transitions net') = fst ` set (transitions ?mid)"
    using arg_cong[OF build_keys[OF bu], of set] by simp
  have 1: "arcs net' = arcs net @ map parse_arc (elements root ''arc'')"
    by (simp add: bi(5))
  have 2: "map_of (places net')
           = map_of (places net) ++ map_of (rev (map doc_place (elements root ''place'')))"
    by (simp add: bi(4) m)
  have 3: "fst ` set (places net') = fst ` set (places net) \<union> doc_place_ids root"
    using parse_places_dom[OF p] by (simp add: bi(4) doc_place_ids_def)
  have 4: "fst ` set (transitions net') = fst ` set (transitions net) \<union> doc_transition_ids root"
    by (simp add: kt parse_transitions_dom doc_transition_ids_def)
  from 1 2 3 4 show ?thesis by blast
qed


theorem load_adds_witness:
  "namespaced ''u'' doc_one \<and>
   load_from_pnml net_loop (Some doc_one) = Inr (True, net_both) \<and>
   arcs net_both = arcs net_loop \<and>
   map_of (places net_both) (Some ''q1'') = Some \<lparr>place_id = Some ''q1'', token = 0\<rparr> \<and>
   map_of (places net_both) (Some ''p1'') = map_of (places net_loop) (Some ''p1'') \<and>
   fst ` set (places net_both) = fst ` set (places net_loop) \<union> {Some ''q1''} \<and>
   fst ` set (transitions net_both) = fst ` set (transitions net_loop) \<and>
   load_from_pnml PetriNet_init (Some doc_one) = Inr (True, net_one) \<and>
   arcs net_one = [] \<and> fst ` set (places net_one) = {Some ''q1''} \<and>
   fst ` set (transitions net_one) = {}"
proof -
  let ?D = "map_of (rev (map doc_place (elements doc_one ''place'')))"
  have n: "namespaced ''u'' doc_one" by code_simp
  have l: "load_from_pnml net_loop (Some doc_one) = Inr (True, net_both)"
    by (rule load_one_after)
  have f: "load_from_pnml PetriNet_init (Some doc_one) = Inr (True, net_one)"
    by (rule load_one_fresh)
  have a: "map parse_arc (elements doc_one ''arc'') = []" by code_simp
  have p: "doc_place_ids doc_one = {Some ''q1''}" by code_simp
  have t: "doc_transition_ids doc_one = {}" by code_simp
  have d: "?D (Some ''q1'') = Some \<lparr>place_id = Some ''q1'', token = 0\<rparr>"
    "?D (Some ''p1'') = None"
    by code_simp+
  have i: "fst ` set (places PetriNet_init) = {}" "fst ` set (transitions PetriNet_init) = {}"
    "arcs PetriNet_init = []"
    by (simp_all add: PetriNet_init_def)
  note L = load_adds[OF n l]
  note F = load_adds[OF n f]
  from L have 1: "arcs net_both = arcs net_loop" by (simp only: a append_Nil2)
  from L have m: "map_of (places net_both) = map_of (places net_loop) ++ ?D" by blast
  have 2: "map_of (places net_both) (Some ''q1'') = Some \<lparr>place_id = Some ''q1'', token = 0\<rparr>"
    by (simp add: m map_add_def d)
  have 3: "map_of (places net_both) (Some ''p1'') = map_of (places net_loop) (Some ''p1'')"
    by (simp add: m map_add_def d)
  from L have 4: "fst ` set (places net_both) = fst ` set (places net_loop) \<union> {Some ''q1''}"
    by (simp only: p)
  from L have 5: "fst ` set (transitions net_both) = fst ` set (transitions net_loop)"
    by (simp only: t Un_empty_right)
  from F have 6: "arcs net_one = []" by (simp only: a i append_Nil2)
  from F have 7: "fst ` set (places net_one) = {Some ''q1''}" by (simp only: p i Un_empty_left)
  from F have 8: "fst ` set (transitions net_one) = {}" by (simp only: t i Un_empty_left)
  from n l f 1 2 3 4 5 6 7 8 show ?thesis by blast
qed


text \<open>
  C2 as stated fails: loading \<^const>\<open>doc_one\<close> into the object that holds the net of
  \<^const>\<open>doc_loop\<close> leaves the three places, the transition and the four arcs of the
  earlier document next to the place \<^verbatim>\<open>q1\<close>, while a new object ends with \<^verbatim>\<open>q1\<close> alone.
\<close>

theorem reload_counterexample:
  "load_from_pnml PetriNet_init (Some doc_loop) = Inr (True, net_loop) \<and>
   load_from_pnml net_loop (Some doc_one) = Inr (True, net_both) \<and>
   load_from_pnml PetriNet_init (Some doc_one) = Inr (True, net_one) \<and>
   map fst (places net_both) = [Some ''p2'', Some ''p1'', Some ''p3'', Some ''q1''] \<and>
   map fst (places net_one) = [Some ''q1''] \<and>
   map fst (transitions net_both) = [Some ''t1''] \<and> transitions net_one = [] \<and>
   length (arcs net_both) = 4 \<and> arcs net_one = [] \<and>
   places net_both \<noteq> places net_one \<and> transitions net_both \<noteq> transitions net_one \<and>
   arcs net_both \<noteq> arcs net_one"
proof -
  have n: "places net_both \<noteq> places net_one" "transitions net_both \<noteq> transitions net_one"
    "arcs net_both \<noteq> arcs net_one"
    by (simp_all add: net_both_def net_one_def net_loop_def)
  have b: "map fst (places net_both) = [Some ''p2'', Some ''p1'', Some ''p3'', Some ''q1'']"
    "map fst (transitions net_both) = [Some ''t1'']" "length (arcs net_both) = 4"
    by (simp_all add: net_both_def net_loop_def)
  have a: "map fst (places net_one) = [Some ''q1'']" "transitions net_one = []"
    "arcs net_one = []"
    by (simp_all add: net_one_def)
  from load_loop load_one_after load_one_fresh a b n show ?thesis by blast
qed

subsection \<open>Initial markings\<close>

lemma py_int_5: "py_int ''5'' = Inr 5"
  by code_simp

lemma sorted_py_Inl: "sorted_py ks = Inl e \<Longrightarrow> e = TypeError"
  by (simp add: sorted_py_def split: if_splits)

lemma build_Inl:
  assumes "build_relationships net = Inl e"
  shows "e = TypeError"
proof (cases "sorted_py (map fst (places net))")
  case (Inl e')
  with assms have "e = e'" by (simp add: build_relationships_def)
  with sorted_py_Inl[OF Inl] show ?thesis by simp
next
  case p: (Inr pids)
  show ?thesis
  proof (cases "sorted_py (map fst (transitions net))")
    case (Inl e')
    with assms p have "e = e'" by (simp add: build_relationships_def)
    with sorted_py_Inl[OF Inl] show ?thesis by simp
  next
    case (Inr tids)
    from build_returns[OF p Inr] assms show ?thesis by auto
  qed
qed

lemma load_a: "load_from_pnml PetriNet_init (Some doc_a) = Inr (True, net_a)"
  by code_simp

text \<open>
  C3, as amended. For a document all of whose elements lie in one namespace: a place
  element without \<^verbatim>\<open>initialMarking\<close> element, without \<^verbatim>\<open>text\<close> element in it, or without
  or with an empty marking text has the token count 0 and is no error, and the marking
  text \<^verbatim>\<open>5\<close> gives the count 5. When some place has a marking text that is not empty and
  that \<^verbatim>\<open>int\<close> rejects, the load raises \<^verbatim>\<open>ValueError\<close>. When no place has one, the only
  exception left is the \<^verbatim>\<open>TypeError\<close> of sorting identifiers of which one is missing; the
  load returns \<^verbatim>\<open>True\<close> when no identifier is missing; and whenever it returns, every
  place of the document is stored with its token count, a later element replacing an
  earlier one of the same identifier.
\<close>

theorem marking_defaults:
  assumes "namespaced u root"
  shows "(\<forall>pl. doc_marking pl = None \<or> doc_marking pl = Some [] \<longrightarrow>
            \<not> bad_marking pl \<and> marking_value pl = 0) \<and>
         (\<forall>pl. doc_marking pl = Some ''5'' \<longrightarrow> \<not> bad_marking pl \<and> marking_value pl = 5) \<and>
         ((\<exists>pl \<in> set (elements root ''place''). bad_marking pl) \<longrightarrow>
            load_from_pnml net (Some root) = Inl ValueError) \<and>
         ((\<forall>pl \<in> set (elements root ''place''). \<not> bad_marking pl) \<longrightarrow>
            (\<forall>err. load_from_pnml net (Some root) = Inl err \<longrightarrow> err = TypeError) \<and>
            (None \<notin> fst ` set (places net) \<union> doc_place_ids root \<and>
             None \<notin> fst ` set (transitions net) \<union> doc_transition_ids root \<longrightarrow>
               (\<exists>net'. load_from_pnml net (Some root) = Inr (True, net'))) \<and>
            (\<forall>b net'. load_from_pnml net (Some root) = Inr (b, net') \<longrightarrow>
               b \<and> map_of (places net')
                    = map_of (places net)
                      ++ map_of (rev (map doc_place (elements root ''place'')))))"
proof (intro conjI)
  show "\<forall>pl. doc_marking pl = None \<or> doc_marking pl = Some [] \<longrightarrow>
            \<not> bad_marking pl \<and> marking_value pl = 0"
    by (auto simp: bad_marking_def marking_value_def)
  show "\<forall>pl. doc_marking pl = Some ''5'' \<longrightarrow> \<not> bad_marking pl \<and> marking_value pl = 5"
    by (simp add: bad_marking_def marking_value_def py_int_5)
  show "(\<exists>pl \<in> set (elements root ''place''). bad_marking pl) \<longrightarrow>
            load_from_pnml net (Some root) = Inl ValueError"
  proof
    assume "\<exists>pl \<in> set (elements root ''place''). bad_marking pl"
    from places_bad[OF assms this, of "places net"]
    show "load_from_pnml net (Some root) = Inl ValueError"
      by (simp add: load_namespaced[OF assms])
  qed
  show "(\<forall>pl \<in> set (elements root ''place''). \<not> bad_marking pl) \<longrightarrow>
            (\<forall>err. load_from_pnml net (Some root) = Inl err \<longrightarrow> err = TypeError) \<and>
            (None \<notin> fst ` set (places net) \<union> doc_place_ids root \<and>
             None \<notin> fst ` set (transitions net) \<union> doc_transition_ids root \<longrightarrow>
               (\<exists>net'. load_from_pnml net (Some root) = Inr (True, net'))) \<and>
            (\<forall>b net'. load_from_pnml net (Some root) = Inr (b, net') \<longrightarrow>
               b \<and> map_of (places net')
                    = map_of (places net)
                      ++ map_of (rev (map doc_place (elements root ''place''))))"
  proof (intro impI conjI allI)
    assume good: "\<forall>pl \<in> set (elements root ''place''). \<not> bad_marking pl"
    from places_good[OF assms good, of "places net"] obtain pls'
      where p: "parse_places (Some u) (elements root ''place'') (places net) = Inr pls'"
        and m: "map_of pls' = map_of (places net)
                  ++ map_of (rev (map doc_place (elements root ''place'')))"
      by blast
    let ?mid = "net\<lparr>places := pls',
                    transitions := parse_transitions (elements root ''transition'') (transitions net),
                    arcs := arcs net @ map parse_arc (elements root ''arc'')\<rparr>"
    have l: "load_from_pnml net (Some root) =
               (case build_relationships ?mid of Inl e \<Rightarrow> Inl e | Inr net' \<Rightarrow> Inr (True, net'))"
      by (simp add: load_namespaced[OF assms] p)
    {
      fix err assume "load_from_pnml net (Some root) = Inl err"
      with l have "build_relationships ?mid = Inl err" by (simp split: sum.splits)
      then show "err = TypeError" by (rule build_Inl)
    }
    {
      assume n: "None \<notin> fst ` set (places net) \<union> doc_place_ids root \<and>
             None \<notin> fst ` set (transitions net) \<union> doc_transition_ids root"
      have kp: "set (map fst (places ?mid)) = fst ` set (places net) \<union> doc_place_ids root"
        using parse_places_dom[OF p] by (simp add: doc_place_ids_def)
      have kt: "set (map fst (transitions ?mid))
                  = fst ` set (transitions net) \<union> doc_transition_ids root"
        by (simp add: parse_transitions_dom doc_transition_ids_def)
      from n kp have "None \<notin> set (map fst (places ?mid))" by simp
      then have sp: "sorted_py (map fst (places ?mid)) = Inr (sort (map fst (places ?mid)))"
        by (rule sorted_py_no_None)
      from n kt have "None \<notin> set (map fst (transitions ?mid))" by simp
      then have st: "sorted_py (map fst (transitions ?mid))
                       = Inr (sort (map fst (transitions ?mid)))"
        by (rule sorted_py_no_None)
      from build_returns[OF sp st] obtain net' where "build_relationships ?mid = Inr net'" ..
      with l have "load_from_pnml net (Some root) = Inr (True, net')" by simp
      then show "\<exists>net'. load_from_pnml net (Some root) = Inr (True, net')" ..
    }
    {
      fix b net' assume r: "load_from_pnml net (Some root) = Inr (b, net')"
      with l have bb: "b" and bu: "build_relationships ?mid = Inr net'"
        by (auto split: sum.splits)
      show b by (rule bb)
      from build_Inr(4)[OF bu] m
      show "map_of (places net')
              = map_of (places net) ++ map_of (rev (map doc_place (elements root ''place'')))"
        by simp
    }
  qed
qed

theorem marking_defaults_witness:
  "namespaced ''u'' doc_a \<and>
   map doc_marking (elements doc_a ''place'') = [Some ''1'', None] \<and>
   list_all (\<lambda>pl. \<not> bad_marking pl) (elements doc_a ''place'') \<and>
   load_from_pnml PetriNet_init (Some doc_a) = Inr (True, net_a) \<and>
   map_of (places net_a) (Some ''p1'') = Some \<lparr>place_id = Some ''p1'', token = 1\<rparr> \<and>
   map_of (places net_a) (Some ''p2'') = Some \<lparr>place_id = Some ''p2'', token = 0\<rparr> \<and>
   namespaced ''u'' doc_bad \<and>
   map doc_marking (elements doc_bad ''place'') = [Some ''abc''] \<and>
   list_ex bad_marking (elements doc_bad ''place'') \<and>
   load_from_pnml net_loop (Some doc_bad) = Inl ValueError"
proof -
  let ?M = "map_of (places PetriNet_init)
              ++ map_of (rev (map doc_place (elements doc_a ''place'')))"
  have n: "namespaced ''u'' doc_a" by code_simp
  have t: "map doc_marking (elements doc_a ''place'') = [Some ''1'', None]" by code_simp
  have g: "\<forall>pl \<in> set (elements doc_a ''place''). \<not> bad_marking pl" by code_simp
  have l: "load_from_pnml PetriNet_init (Some doc_a) = Inr (True, net_a)" by (rule load_a)
  have e: "?M (Some ''p1'') = Some \<lparr>place_id = Some ''p1'', token = 1\<rparr>"
    "?M (Some ''p2'') = Some \<lparr>place_id = Some ''p2'', token = 0\<rparr>"
    by code_simp+
  have nb: "namespaced ''u'' doc_bad" by code_simp
  have tb: "map doc_marking (elements doc_bad ''place'') = [Some ''abc'']" by code_simp
  have b: "\<exists>pl \<in> set (elements doc_bad ''place''). bad_marking pl" by code_simp
  from marking_defaults[OF n, of PetriNet_init] g l
  have "map_of (places net_a) = ?M" by blast
  with e have 1: "map_of (places net_a) (Some ''p1'') = Some \<lparr>place_id = Some ''p1'', token = 1\<rparr>"
    "map_of (places net_a) (Some ''p2'') = Some \<lparr>place_id = Some ''p2'', token = 0\<rparr>"
    by simp_all
  from marking_defaults[OF nb, of net_loop] b
  have 2: "load_from_pnml net_loop (Some doc_bad) = Inl ValueError" by blast
  from g have g': "list_all (\<lambda>pl. \<not> bad_marking pl) (elements doc_a ''place'')"
    by (simp add: list_all_iff)
  from b have b': "list_ex bad_marking (elements doc_bad ''place'')"
    by (simp add: list_ex_iff)
  from n t g' l 1 nb tb b' 2 show ?thesis by blast
qed

text \<open>
  C3 as stated fails for a marking text that is not a number: on the text \<^verbatim>\<open>abc\<close> the
  conversion raises \<^verbatim>\<open>ValueError\<close> and so does the load.
\<close>

theorem non_numeric_marking_counterexample:
  "map doc_marking (elements doc_bad ''place'') = [Some ''abc''] \<and>
   py_int ''abc'' = Inl ValueError \<and>
   load_from_pnml PetriNet_init (Some doc_bad) = Inl ValueError"
proof -
  have 1: "map doc_marking (elements doc_bad ''place'') = [Some ''abc'']" by code_simp
  have 2: "py_int ''abc'' = Inl ValueError" by code_simp
  have 3: "load_from_pnml PetriNet_init (Some doc_bad) = Inl ValueError" by code_simp
  from 1 2 3 show ?thesis by blast
qed


subsection \<open>Documents without namespace\<close>

text \<open>
  C6. The namespace-qualified document \<^const>\<open>doc_loop\<close> loads into the net
  \<^const>\<open>net_loop\<close>. For the same document without namespace the prefix map is
  \<^verbatim>\<open>{'pnml': 'pnml'}\<close>, the search for \<^verbatim>\<open>{pnml}place\<close> finds nothing, and the load returns
  \<^verbatim>\<open>True\<close> with an empty net.
\<close>

theorem unqualified_document_empty:
  "load_from_pnml PetriNet_init (Some doc_loop) = Inr (True, net_loop) \<and>
   get_ns (unqualify doc_loop) = Some ''pnml'' \<and>
   find_all (get_ns (unqualify doc_loop)) (unqualify doc_loop) ''place'' = [] \<and>
   load_from_pnml PetriNet_init (Some (unqualify doc_loop)) = Inr (True, PetriNet_init)"
proof -
  have 1: "get_ns (unqualify doc_loop) = Some ''pnml''" by code_simp
  have 2: "find_all (get_ns (unqualify doc_loop)) (unqualify doc_loop) ''place'' = []"
    by code_simp
  have 3: "load_from_pnml PetriNet_init (Some (unqualify doc_loop)) = Inr (True, PetriNet_init)"
    by code_simp
  from load_loop 1 2 3 show ?thesis by simp
qed


end
